theory Spec2Isabelle
  imports Complex_Main "HOL-Library.AList"
begin

section \<open>LDPC error correction: data model\<close>

text \<open>
  Embedding of \<^verbatim>\<open>src/fault_tolerance/ldpc_error_correction.py\<close>.
  Python exceptions are values of \<open>error\<close>; a function that may raise returns
  \<open>error + 'a\<close>. A float is the rational number it holds exactly; a float literal and a
  float product are rounded to a double (section on floats below).
\<close>

datatype error =
  ValueError | MemoryError | TimeoutError | ZeroDivisionError | IndexError
  | AttributeError | TypeError

datatype error_correction_mode = STANDARD | HIGH_REDUNDANCY | FAST | ADAPTIVE

datatype channel_condition = EXCELLENT | GOOD | POOR | SEVERE

record code_parameters =
  code_rate :: rat
  block_length :: int
  max_iterations :: int
  syndrome_threshold :: rat

text \<open>The dataclass constructor with its \<^verbatim>\<open>__post_init__\<close> validation.\<close>

definition CodeParameters :: "rat \<Rightarrow> int \<Rightarrow> int \<Rightarrow> rat \<Rightarrow> error + code_parameters" where
  "CodeParameters r n it thr =
     (if \<not> (0 < r \<and> r < 1) then Inl ValueError
      else if n \<le> 0 then Inl ValueError
      else if it \<le> 0 then Inl ValueError
      else Inr \<lparr>code_rate = r, block_length = n, max_iterations = it,
                syndrome_threshold = thr\<rparr>)"

text \<open>
  A parity-check matrix \<open>H\<close> is stored by rows, each row being the list of its column
  indices (all stored entries are 1, as in the CSR matrix built from
  \<^verbatim>\<open>row_indices\<close>/\<^verbatim>\<open>col_indices\<close>). A generator matrix \<open>G\<close> is a list of dense 0/1 rows.
\<close>

type_synonym hmatrix = "nat list list"
type_synonym gmatrix = "nat list list"
type_synonym cache_key = "rat \<times> int"

text \<open>
  Norm of a syndrome: \<open>NormSqrt w\<close> is \<open>sqrt w\<close> for a 0/1 vector with \<open>w\<close> ones,
  \<open>NormInf\<close> is \<^verbatim>\<open>float('inf')\<close>.
\<close>

datatype norm = NormSqrt nat | NormInf

record decoding_result =
  success :: bool
  corrected_data :: "nat list option"
  iterations_used :: int
  syndrome_norm :: norm
  error_positions :: "nat list"
  bit_error_rate :: rat

text \<open>
  The encoder object. Python dictionaries keep insertion order, so the matrix cache and
  its access times are association lists. The performance tracker contributes its deque
  of channel conditions, the only part of it the encoder reads back.
\<close>

record ldpc_encoder =
  code_params :: code_parameters
  enable_adaptive_mode :: bool
  enable_performance_tracking :: bool
  memory_limit_bytes :: int
  channel_conditions :: "channel_condition list"
  current_mode :: error_correction_mode
  mode_switch_history :: "(error_correction_mode \<times> error_correction_mode) list"
  matrix_cache :: "(cache_key \<times> (gmatrix \<times> hmatrix)) list"
  cache_access_times :: "(cache_key \<times> rat) list"
  consecutive_failures :: nat
  degraded_mode :: bool

text \<open>\<^verbatim>\<open>deque(maxlen=n).append\<close>: the oldest entries fall off the left end.\<close>

definition deque_append :: "nat \<Rightarrow> 'a list \<Rightarrow> 'a \<Rightarrow> 'a list" where
  "deque_append maxlen xs x = (let ys = xs @ [x] in drop (length ys - maxlen) ys)"

section \<open>External inputs\<close>

text \<open>
  What the encoder takes from outside the program is an explicit argument:
  \<^item> \<open>rng_choice i\<close> is the outcome of \<^verbatim>\<open>np.random.choice(n, size=row_weight, replace=False)\<close>
    for parity row \<open>i\<close>;
  \<^item> \<open>rng_P i\<close> is row \<open>i\<close> of the dense form of
    \<^verbatim>\<open>sp.random(k, m, density=0.1, dtype=np.uint8)\<close> after \<^verbatim>\<open>P.data % 2\<close>;
  \<^item> \<open>md5\<close> is \<^verbatim>\<open>hashlib.md5(...).hexdigest()\<close>;
  \<^item> \<open>elapsed i\<close> is the value of \<^verbatim>\<open>time.time() - start_time\<close> read at the timeout check of
    the \<open>i\<close>-th block, and \<open>clock\<close> the time stamped on a cache entry.
\<close>

record world =
  rng_choice :: "nat \<Rightarrow> nat list"
  rng_P :: "nat \<Rightarrow> nat list"
  md5 :: "nat list \<Rightarrow> string"
  elapsed :: "nat \<Rightarrow> rat"
  clock :: rat

section \<open>Matrix generation and cache\<close>

text \<open>
  Doubles: a positive number is rounded to the nearest number \<open>m * 2^e\<close> with
  \<open>2^52 \<le> m < 2^53\<close>, ties going to the even \<open>m\<close> (the range of exponents is not
  limited; the numbers that occur here are far from its ends).
\<close>

definition round_half_even :: "rat \<Rightarrow> int" where
  "round_half_even x =
     (let f = \<lfloor>x\<rfloor>;
          d = x - of_int f
      in if d < 1 / 2 then f else if 1 / 2 < d then f + 1 else if even f then f else f + 1)"

definition pow2 :: "int \<Rightarrow> rat" where
  "pow2 e = (if 0 \<le> e then 2 ^ nat e else 1 / 2 ^ nat (- e))"

text \<open>The number of binary digits of a positive integer.\<close>

function bit_length :: "int \<Rightarrow> nat" where
  "bit_length n = (if n \<le> 0 then 0 else Suc (bit_length (n div 2)))"
  by pat_completeness auto
termination
  by (relation "measure nat") auto

declare bit_length.simps [simp del]

text \<open>The floor of the binary logarithm of a positive rational.\<close>

definition floor_log2 :: "rat \<Rightarrow> int" where
  "floor_log2 q =
     (case quotient_of q of
        (a, b) \<Rightarrow>
          let x = int (bit_length a) - int (bit_length b)
          in if pow2 x \<le> q then x else x - 1)"

definition round_double :: "rat \<Rightarrow> rat" where
  "round_double q =
     (if q = 0 then 0
      else
        let e = floor_log2 \<bar>q\<bar> - 52;
            m = round_half_even (\<bar>q\<bar> / pow2 e)
        in sgn q * of_int m * pow2 e)"

text \<open>The product \<^verbatim>\<open>block_length * code_rate\<close> of an integer and a float.\<close>

definition float_mul_int :: "int \<Rightarrow> rat \<Rightarrow> rat" where
  "float_mul_int n x = round_double (round_double (of_int n) * x)"

text \<open>Python's \<^verbatim>\<open>int(x)\<close> on a float truncates towards zero.\<close>

definition py_int :: "rat \<Rightarrow> int" where
  "py_int q = (if 0 \<le> q then \<lfloor>q\<rfloor> else \<lceil>q\<rceil>)"

text \<open>\<^verbatim>\<open>k = int(block_length * code_rate)\<close>, the number of information bits of a block.\<close>

definition info_bits :: "int \<Rightarrow> rat \<Rightarrow> int" where
  "info_bits bl r = py_int (float_mul_int bl r)"

primrec sqrt_search :: "nat \<Rightarrow> nat \<Rightarrow> nat" where
  "sqrt_search n 0 = 0"
| "sqrt_search n (Suc c) = (if Suc c * Suc c \<le> n then Suc c else sqrt_search n c)"

definition floor_sqrt :: "nat \<Rightarrow> nat" where
  "floor_sqrt n = sqrt_search n n"

text \<open>\<^verbatim>\<open>row_weight = max(3, int(np.sqrt(n) / 2))\<close>.\<close>

definition row_weight :: "int \<Rightarrow> nat" where
  "row_weight n = max 3 (floor_sqrt (nat n) div 2)"

definition unit_row :: "nat \<Rightarrow> nat \<Rightarrow> nat list" where
  "unit_row k i = map (\<lambda>j. if j = i then 1 else 0) [0..<k]"

text \<open>
  \<^verbatim>\<open>_generate_ldpc_matrices\<close>. \<open>H\<close> has one row of sampled columns per parity bit;
  \<open>G\<close> is \<^verbatim>\<open>hstack([I_k, P])\<close>. The exceptions, in the order of the statements that raise
  them: the memory estimate; \<^verbatim>\<open>int(np.sqrt(n) / 2)\<close> of a negative \<open>n\<close>; the division by
  \<open>n\<close> in \<^verbatim>\<open>col_weight\<close>; sampling more columns than there are; a matrix with a negative
  dimension; and the two densities \<^verbatim>\<open>H.nnz/(m*n)\<close> and \<^verbatim>\<open>G.nnz/(k*n)\<close> that the debug
  message computes whether or not it is printed.
\<close>

definition generate_ldpc_matrices ::
  "ldpc_encoder \<Rightarrow> world \<Rightarrow> rat \<Rightarrow> int \<Rightarrow> error + (gmatrix \<times> hmatrix)" where
  "generate_ldpc_matrices enc w r bl =
     (let k = info_bits bl r;
          n = bl;
          m = n - k;
          estimated_memory = (n * k + n * m) * 8
      in if estimated_memory > memory_limit_bytes enc then Inl MemoryError
         else if n < 0 then Inl ValueError
         else if n = 0 then Inl ZeroDivisionError
         else if 0 < m \<and> n < int (row_weight n) then Inl ValueError
         else if m < 0 \<or> k < 0 then Inl ValueError
         else if m * n = 0 \<or> k * n = 0 then Inl ZeroDivisionError
         else
           let H = map (rng_choice w) [0..<nat m];
               G = map (\<lambda>i. unit_row (nat k) i @ rng_P w i) [0..<nat k]
           in Inr (G, H))"

text \<open>What the two library samplers promise about their outcomes.\<close>

definition valid_rng :: "world \<Rightarrow> nat \<Rightarrow> nat \<Rightarrow> bool" where
  "valid_rng w n k =
     ((\<forall>i < n - k. distinct (rng_choice w i)
                    \<and> length (rng_choice w i) = row_weight (int n)
                    \<and> (\<forall>j \<in> set (rng_choice w i). j < n))
      \<and> (\<forall>i < k. length (rng_P w i) = n - k \<and> (\<forall>x \<in> set (rng_P w i). x = 0 \<or> x = 1)))"

text \<open>\<^verbatim>\<open>min(d.keys(), key=d.get)\<close>: the first key with the least value.\<close>

fun min_by_time :: "'k \<times> rat \<Rightarrow> ('k \<times> rat) list \<Rightarrow> 'k" where
  "min_by_time (k, t) [] = k"
| "min_by_time (k, t) ((k', t') # kts) =
     (if t' < t then min_by_time (k', t') kts else min_by_time (k, t) kts)"

definition cache_store ::
  "ldpc_encoder \<Rightarrow> world \<Rightarrow> cache_key \<Rightarrow> gmatrix \<times> hmatrix \<Rightarrow> ldpc_encoder" where
  "cache_store enc w key GH =
     enc\<lparr>matrix_cache := AList.update key GH (matrix_cache enc),
          cache_access_times := AList.update key (clock w) (cache_access_times enc)\<rparr>"

text \<open>
  \<^verbatim>\<open>_get_matrices\<close>. The two dictionaries always hold the same keys, so the eviction
  finds its key in both.
\<close>

definition get_matrices ::
  "ldpc_encoder \<Rightarrow> world \<Rightarrow> (error + (gmatrix \<times> hmatrix)) \<times> ldpc_encoder" where
  "get_matrices enc w =
     (let cache_key = (code_rate (code_params enc), block_length (code_params enc)) in
      case map_of (matrix_cache enc) cache_key of
        Some GH \<Rightarrow>
          (Inr GH,
           enc\<lparr>cache_access_times :=
                 AList.update cache_key (clock w) (cache_access_times enc)\<rparr>)
      | None \<Rightarrow>
          (case generate_ldpc_matrices enc w (code_rate (code_params enc))
                  (block_length (code_params enc)) of
             Inl e \<Rightarrow> (Inl e, enc)
           | Inr GH \<Rightarrow>
               if length (matrix_cache enc) < 5 then (Inr GH, cache_store enc w cache_key GH)
               else
                 (case cache_access_times enc of
                    [] \<Rightarrow> (Inl ValueError, enc)
                  | kt # kts \<Rightarrow>
                      let oldest_key = min_by_time kt kts;
                          enc1 = enc\<lparr>matrix_cache := AList.delete oldest_key (matrix_cache enc),
                                     cache_access_times :=
                                       AList.delete oldest_key (cache_access_times enc)\<rparr>
                      in (Inr GH, cache_store enc1 w cache_key GH))))"

section \<open>Arithmetic in GF(2)\<close>

text \<open>\<^verbatim>\<open>(block @ G) % 2\<close> for a block of \<open>k\<close> bits and a \<open>k \<times> n\<close> matrix.\<close>

definition vec_mat_mod2 :: "nat \<Rightarrow> nat list \<Rightarrow> gmatrix \<Rightarrow> nat list" where
  "vec_mat_mod2 n b G =
     map (\<lambda>j. sum_list (map (\<lambda>(x, row). x * row ! j) (zip b G)) mod 2) [0..<n]"

text \<open>\<^verbatim>\<open>(H @ received_block) % 2\<close>: one parity per row of \<open>H\<close>.\<close>

definition row_parity :: "nat list \<Rightarrow> nat list \<Rightarrow> nat" where
  "row_parity r row = sum_list (map (\<lambda>j. r ! j) row) mod 2"

definition syndrome :: "hmatrix \<Rightarrow> nat list \<Rightarrow> nat list" where
  "syndrome H r = map (row_parity r) H"

text \<open>
  The product of a sparse matrix and a one-dimensional array, in either order, is a numpy
  array, and a numpy array has no method \<^verbatim>\<open>toarray\<close>: the calls
  \<^verbatim>\<open>encoded_block.toarray()\<close> and \<^verbatim>\<open>syndrome.toarray()\<close> raise \<^verbatim>\<open>AttributeError\<close>.
\<close>

definition ndarray_toarray :: "nat list \<Rightarrow> error + nat list" where
  "ndarray_toarray v = Inl AttributeError"

section \<open>Adaptation controller\<close>

definition get_current_channel_condition :: "ldpc_encoder \<Rightarrow> channel_condition" where
  "get_current_channel_condition enc =
     (if channel_conditions enc = [] then GOOD else last (channel_conditions enc))"

fun mode_params :: "error_correction_mode \<Rightarrow> rat \<times> int" where
  "mode_params FAST = (3 / 4, 1024)"
| "mode_params STANDARD = (1 / 2, 1024)"
| "mode_params HIGH_REDUNDANCY = (round_double (33 / 100), 1024)"
| "mode_params ADAPTIVE = (1 / 2, 1024)"

definition switch_to_mode :: "ldpc_encoder \<Rightarrow> error_correction_mode \<Rightarrow> error + ldpc_encoder" where
  "switch_to_mode enc mode =
     (case mode_params mode of (new_rate, new_length) \<Rightarrow>
        (case CodeParameters new_rate new_length
                (max_iterations (code_params enc)) (syndrome_threshold (code_params enc)) of
           Inl e \<Rightarrow> Inl e
         | Inr cp \<Rightarrow>
             Inr (enc\<lparr>code_params := cp, matrix_cache := [], cache_access_times := []\<rparr>)))"

fun mode_for_condition :: "channel_condition \<Rightarrow> error_correction_mode" where
  "mode_for_condition EXCELLENT = FAST"
| "mode_for_condition GOOD = STANDARD"
| "mode_for_condition POOR = HIGH_REDUNDANCY"
| "mode_for_condition SEVERE = HIGH_REDUNDANCY"

text \<open>
  \<^verbatim>\<open>_adapt_code_parameters\<close>: an exception of the switch is caught and logged, which
  leaves the encoder as it was.
\<close>

definition adapt_code_parameters :: "ldpc_encoder \<Rightarrow> ldpc_encoder" where
  "adapt_code_parameters enc =
     (if \<not> enable_adaptive_mode enc \<or> \<not> enable_performance_tracking enc then enc
      else
        let new_mode = mode_for_condition (get_current_channel_condition enc) in
        if new_mode \<noteq> current_mode enc then
          (case switch_to_mode enc new_mode of
             Inl e \<Rightarrow> enc
           | Inr enc' \<Rightarrow>
               enc'\<lparr>mode_switch_history :=
                       deque_append 10 (mode_switch_history enc') (current_mode enc, new_mode),
                     current_mode := new_mode\<rparr>)
        else enc)"

section \<open>Block decoder\<close>

text \<open>
  \<^verbatim>\<open>syndrome_norm < syndrome_threshold\<close>, where the norm of a 0/1 syndrome with \<open>w\<close> ones is
  \<open>sqrt w\<close>: the comparison is made on the squares.
\<close>

definition converged :: "code_parameters \<Rightarrow> nat \<Rightarrow> bool" where
  "converged cp w =
     (0 < syndrome_threshold cp \<and> of_nat w < syndrome_threshold cp * syndrome_threshold cp)"

text \<open>\<^verbatim>\<open>error_votes[var_nodes] += 1\<close> adds one vote to every column of the row.\<close>

definition add_votes :: "nat list \<Rightarrow> nat list \<Rightarrow> nat list" where
  "add_votes votes row =
     map (\<lambda>j. votes ! j + (if j \<in> set row then 1 else 0)) [0..<length votes]"

definition error_votes :: "hmatrix \<Rightarrow> nat list \<Rightarrow> nat list" where
  "error_votes H r =
     foldl (\<lambda>votes row. if row \<noteq> [] \<and> row_parity r row \<noteq> 0 then add_votes votes row else votes)
       (replicate (length r) 0) H"

text \<open>
  \<^verbatim>\<open>error_votes > np.mean(error_votes) + np.std(error_votes)\<close> in exact arithmetic. With
  \<open>n\<close> votes of sum \<open>S\<close> and \<open>d x = n * x - S\<close>, the mean is \<open>S / n\<close>, the variance is
  \<open>(\<Sum>x. (d x)\<^sup>2) / n\<^sup>3\<close>, and \<open>v\<close> exceeds mean plus deviation iff \<open>0 < d v\<close> and
  \<open>(\<Sum>x. (d x)\<^sup>2) < n * (d v)\<^sup>2\<close>.
\<close>

definition exceeds_threshold :: "nat list \<Rightarrow> nat \<Rightarrow> bool" where
  "exceeds_threshold votes v =
     (let n = int (length votes);
          S = int (sum_list votes);
          d = n * int v - S
      in 0 < d \<and> sum_list (map (\<lambda>x. (n * int x - S) * (n * int x - S)) votes) < n * (d * d))"

definition flip_positions :: "nat list \<Rightarrow> nat list" where
  "flip_positions votes = filter (\<lambda>j. exceeds_threshold votes (votes ! j)) [0..<length votes]"

text \<open>\<^verbatim>\<open>1 - x\<close> on an unsigned byte.\<close>

definition flip_bit :: "nat \<Rightarrow> nat" where
  "flip_bit x = (257 - x mod 256) mod 256"

definition flip_bits :: "nat list \<Rightarrow> nat list \<Rightarrow> nat list" where
  "flip_bits r ps = map (\<lambda>j. if j \<in> set ps then flip_bit (r ! j) else r ! j) [0..<length r]"

type_synonym block_result = "nat list \<times> int \<times> norm \<times> nat list"

text \<open>The exit after the loop: broken off or run out of iterations.\<close>

definition not_converged :: "code_parameters \<Rightarrow> nat \<Rightarrow> nat list \<Rightarrow> block_result" where
  "not_converged cp k r = (take k r, max_iterations cp, NormInf, [0..<min 10 (length r)])"

text \<open>
  The \<^verbatim>\<open>try\<close> block of \<^verbatim>\<open>_decode_block\<close>, with its loop
  \<^verbatim>\<open>for iteration in range(max_iterations)\<close>: the first number counts the iterations
  left, the second is \<^verbatim>\<open>iteration\<close>. Each pass starts with the syndrome and its norm.
\<close>

fun decode_iterations ::
  "code_parameters \<Rightarrow> hmatrix \<Rightarrow> nat \<Rightarrow> nat \<Rightarrow> nat \<Rightarrow> nat list \<Rightarrow> error + block_result" where
  "decode_iterations cp H k 0 iteration r = Inr (not_converged cp k r)"
| "decode_iterations cp H k (Suc left) iteration r =
     (case ndarray_toarray (syndrome H r) of
        Inl e \<Rightarrow> Inl e
      | Inr s \<Rightarrow>
          (let w = sum_list s in
           if converged cp w then Inr (take k r, int iteration + 1, NormSqrt w, [])
           else
             let ps = flip_positions (error_votes H r) in
             if ps \<noteq> [] then decode_iterations cp H k left (Suc iteration) (flip_bits r ps)
             else Inr (not_converged cp k r)))"

text \<open>
  \<^verbatim>\<open>_decode_block\<close>: the handler \<^verbatim>\<open>except Exception\<close> returns the first \<open>k\<close> bits of the
  block as received, with no iteration, an infinite norm and no error position.
\<close>

definition decode_block :: "code_parameters \<Rightarrow> hmatrix \<Rightarrow> nat \<Rightarrow> nat list \<Rightarrow> block_result" where
  "decode_block cp H k r =
     (case decode_iterations cp H k (nat (max_iterations cp)) 0 r of
        Inr result \<Rightarrow> result
      | Inl e \<Rightarrow> ((if k \<le> length r then take k r else r), 0, NormInf, []))"

section \<open>Encoding and decoding of messages\<close>

text \<open>The metadata dictionary: a key that may be missing is an optional field.\<close>

record metadata =
  original_length :: "int option"
  encoded_length :: "int option"
  meta_code_rate :: "rat option"
  meta_block_length :: "int option"
  padding_bits :: "int option"
  meta_mode :: "error_correction_mode option"
  checksum :: "string option"

text \<open>\<^verbatim>\<open>range(0, len(xs), n)\<close> with the slices \<^verbatim>\<open>xs[i:i+n]\<close>.\<close>

function chunks :: "nat \<Rightarrow> 'a list \<Rightarrow> 'a list list" where
  "chunks n xs = (if n = 0 \<or> xs = [] then [] else take n xs # chunks n (drop n xs))"
  by pat_completeness auto
termination
  by (relation "measure (\<lambda>(n, xs). length xs)") auto

declare chunks.simps [simp del]

text \<open>The slice \<^verbatim>\<open>xs[:j]\<close>; a negative \<open>j\<close> counts from the end.\<close>

definition py_take :: "int \<Rightarrow> 'a list \<Rightarrow> 'a list" where
  "py_take j xs = (if 0 \<le> j then take (nat j) xs else take (length xs - nat (- j)) xs)"

definition assess_channel_condition :: "rat \<Rightarrow> channel_condition" where
  "assess_channel_condition ber =
     (if ber < 1 / 100 then EXCELLENT
      else if ber < 5 / 100 then GOOD
      else if ber < 15 / 100 then POOR
      else SEVERE)"

definition record_decoding :: "ldpc_encoder \<Rightarrow> decoding_result \<Rightarrow> ldpc_encoder" where
  "record_decoding enc result =
     (if enable_performance_tracking enc then
        enc\<lparr>channel_conditions :=
              deque_append 100 (channel_conditions enc)
                (assess_channel_condition (bit_error_rate result))\<rparr>
      else enc)"

text \<open>\<^verbatim>\<open>max(a, b)\<close> on syndrome norms: the first argument wins a tie.\<close>

fun norm_less :: "norm \<Rightarrow> norm \<Rightarrow> bool" where
  "norm_less (NormSqrt a) (NormSqrt b) = (a < b)"
| "norm_less (NormSqrt a) NormInf = True"
| "norm_less NormInf b = False"

definition norm_max :: "norm \<Rightarrow> norm \<Rightarrow> norm" where
  "norm_max a b = (if norm_less a b then b else a)"

type_synonym decode_acc = "nat list list \<times> int \<times> norm \<times> nat list"

text \<open>
  The block loop of \<^verbatim>\<open>decode\<close>. Block number \<open>j\<close> starts at position \<open>i = j * n\<close>; the
  timeout is checked before each block, a short last block is padded with zeros, and the
  error positions of a block are shifted by \<^verbatim>\<open>i*k\<close>.
\<close>

fun decode_blocks ::
  "code_parameters \<Rightarrow> world \<Rightarrow> rat \<Rightarrow> hmatrix \<Rightarrow> nat \<Rightarrow> nat \<Rightarrow> nat \<Rightarrow> nat list list
     \<Rightarrow> decode_acc \<Rightarrow> error + decode_acc" where
  "decode_blocks cp w tmo H k n j [] acc = Inr acc"
| "decode_blocks cp w tmo H k n j (b # bs) (decoded_blocks, total_iterations, max_norm, errs) =
     (if tmo < elapsed w j then Inl TimeoutError
      else
        (case decode_block cp H k (b @ replicate (n - length b) 0) of
           (decoded_block, iterations, nrm, block_errors) \<Rightarrow>
             decode_blocks cp w tmo H k n (Suc j) bs
               (decoded_blocks @ [decoded_block],
                total_iterations + iterations,
                norm_max max_norm nrm,
                errs @ map (\<lambda>pos. pos + (j * n) * k) block_errors)))"

text \<open>
  The inner \<^verbatim>\<open>try\<close> block of \<^verbatim>\<open>decode\<close>, run on the encoder that carries the substituted
  parameters. \<^verbatim>\<open>np.concatenate\<close> of no blocks raises.
\<close>

definition decode_body ::
  "ldpc_encoder \<Rightarrow> world \<Rightarrow> nat list \<Rightarrow> metadata \<Rightarrow> int \<Rightarrow> rat \<Rightarrow> int \<Rightarrow> int \<Rightarrow> rat
     \<Rightarrow> (error + decoding_result) \<times> ldpc_encoder" where
  "decode_body enc w encoded_data meta original_len rate bl padding tmo =
     (case get_matrices enc w of
        (Inl e, enc1) \<Rightarrow> (Inl e, enc1)
      | (Inr (G, H), enc1) \<Rightarrow>
          let k = nat (info_bits bl rate);
              n = nat bl
          in case decode_blocks (code_params enc1) w tmo H k n 0 (chunks n encoded_data)
                    ([], 0, NormSqrt 0, []) of
               Inl e \<Rightarrow> (Inl e, enc1)
             | Inr (decoded_blocks, total_iterations, max_norm, errs) \<Rightarrow>
                 if decoded_blocks = [] then (Inl ValueError, enc1)
                 else
                   let d0 = concat decoded_blocks;
                       d1 = (if 0 < padding then py_take (- padding) d0 else d0);
                       decoded_data = py_take original_len d1;
                       ber = of_nat (length errs) / of_nat (max (length encoded_data) 1);
                       ok = (case checksum meta of
                               None \<Rightarrow> True
                             | Some expected \<Rightarrow>
                                 md5 w (if 0 < padding
                                        then decoded_data @ replicate (nat padding) 0
                                        else decoded_data) = expected);
                       result = \<lparr>success = ok, corrected_data = Some decoded_data,
                                 iterations_used = total_iterations, syndrome_norm = max_norm,
                                 error_positions = errs, bit_error_rate = ber\<rparr>;
                       enc2 = record_decoding enc1 result;
                       enc3 = (if ok then enc2\<lparr>consecutive_failures := 0, degraded_mode := False\<rparr>
                               else enc2)
                   in (Inr result, enc3))"

text \<open>
  The outer \<^verbatim>\<open>try\<close> block: validation of the metadata, the temporary parameters, the
  body, and the \<^verbatim>\<open>finally\<close> clause that puts the caller's parameters back.
\<close>

definition decode_guarded ::
  "ldpc_encoder \<Rightarrow> world \<Rightarrow> nat list \<Rightarrow> metadata \<Rightarrow> rat
     \<Rightarrow> (error + decoding_result) \<times> ldpc_encoder" where
  "decode_guarded enc w encoded_data meta tmo =
     (case original_length meta of
        None \<Rightarrow> (Inl ValueError, enc)
      | Some original_len \<Rightarrow>
          let rate = (case meta_code_rate meta of
                        Some r \<Rightarrow> r | None \<Rightarrow> code_rate (code_params enc));
              bl = (case meta_block_length meta of
                      Some b \<Rightarrow> b | None \<Rightarrow> block_length (code_params enc));
              padding = (case padding_bits meta of Some p \<Rightarrow> p | None \<Rightarrow> 0);
              original_params = code_params enc
          in case CodeParameters rate bl (max_iterations original_params)
                    (syndrome_threshold original_params) of
               Inl e \<Rightarrow> (Inl e, enc)
             | Inr cp \<Rightarrow>
                 (case decode_body (enc\<lparr>code_params := cp\<rparr>) w encoded_data meta
                          original_len rate bl padding tmo of
                    (res, enc') \<Rightarrow> (res, enc'\<lparr>code_params := original_params\<rparr>)))"

definition failed_result :: decoding_result where
  "failed_result =
     \<lparr>success = False, corrected_data = None, iterations_used = 0, syndrome_norm = NormInf,
      error_positions = [], bit_error_rate = 1\<rparr>"

text \<open>
  \<^verbatim>\<open>decode\<close>: the handler \<^verbatim>\<open>except Exception\<close> turns every exception of the guarded part
  into a failed result, so the function returns on every path.
\<close>

definition decode ::
  "ldpc_encoder \<Rightarrow> world \<Rightarrow> nat list \<Rightarrow> metadata \<Rightarrow> rat
     \<Rightarrow> (error + decoding_result) \<times> ldpc_encoder" where
  "decode enc w encoded_data meta tmo =
     (case decode_guarded enc w encoded_data meta tmo of
        (Inr result, enc') \<Rightarrow> (Inr result, enc')
      | (Inl e, enc') \<Rightarrow>
          let failures = consecutive_failures enc' + 1;
              enc1 = enc'\<lparr>consecutive_failures := failures,
                         degraded_mode := (if 3 < failures then True else degraded_mode enc')\<rparr>
          in (Inr failed_result, record_decoding enc1 failed_result))"

text \<open>
  The block loop of \<^verbatim>\<open>encode\<close>: each block is multiplied by \<open>G\<close>, the product is turned
  into a flat array, and the timeout is read after the block.
\<close>

fun encode_blocks ::
  "world \<Rightarrow> rat \<Rightarrow> gmatrix \<Rightarrow> nat \<Rightarrow> nat \<Rightarrow> nat list list \<Rightarrow> nat list list
     \<Rightarrow> error + nat list list" where
  "encode_blocks w tmo G n j [] encoded_blocks = Inr encoded_blocks"
| "encode_blocks w tmo G n j (block # rest) encoded_blocks =
     (case ndarray_toarray (vec_mat_mod2 n block G) of
        Inl e \<Rightarrow> Inl e
      | Inr encoded_block \<Rightarrow>
          if tmo < elapsed w j then Inl TimeoutError
          else encode_blocks w tmo G n (Suc j) rest (encoded_blocks @ [encoded_block]))"

text \<open>
  \<^verbatim>\<open>encode\<close>. The body is the \<^verbatim>\<open>try\<close> block; the handler counts the failure and raises
  again. \<^verbatim>\<open>np.concatenate\<close> of no blocks raises.
\<close>

definition encode_body ::
  "ldpc_encoder \<Rightarrow> world \<Rightarrow> nat list \<Rightarrow> rat
     \<Rightarrow> (error + (nat list \<times> metadata)) \<times> ldpc_encoder" where
  "encode_body enc w data tmo =
     (let enc1 = adapt_code_parameters enc in
      if \<not> list_all (\<lambda>x. x = 0 \<or> x = 1) data then (Inl ValueError, enc1)
      else
        (case get_matrices enc1 w of
           (Inl e, enc2) \<Rightarrow> (Inl e, enc2)
         | (Inr (G, H), enc2) \<Rightarrow>
             let k = info_bits (block_length (code_params enc2)) (code_rate (code_params enc2))
             in if k = 0 then (Inl ZeroDivisionError, enc2)
                else
                  let padding_needed = (k - int (length data) mod k) mod k;
                      binary_data = data @ replicate (nat padding_needed) 0;
                      original_len = int (length binary_data) - padding_needed
                  in case encode_blocks w tmo G (nat (block_length (code_params enc2))) 0
                            (chunks (nat k) binary_data) [] of
                       Inl e \<Rightarrow> (Inl e, enc2)
                     | Inr encoded_blocks \<Rightarrow>
                         if encoded_blocks = [] then (Inl ValueError, enc2)
                         else
                           let encoded_data = concat encoded_blocks
                           in (Inr (encoded_data,
                                    \<lparr>original_length = Some original_len,
                                     encoded_length = Some (int (length encoded_data)),
                                     meta_code_rate = Some (code_rate (code_params enc2)),
                                     meta_block_length = Some (block_length (code_params enc2)),
                                     padding_bits = Some padding_needed,
                                     meta_mode = Some (current_mode enc2),
                                     checksum = Some (md5 w binary_data)\<rparr>),
                               enc2)))"

definition encode ::
  "ldpc_encoder \<Rightarrow> world \<Rightarrow> nat list \<Rightarrow> rat
     \<Rightarrow> (error + (nat list \<times> metadata)) \<times> ldpc_encoder" where
  "encode enc w data tmo =
     (case encode_body enc w data tmo of
        (Inr out, enc') \<Rightarrow> (Inr out, enc')
      | (Inl e, enc') \<Rightarrow>
          let failures = consecutive_failures enc' + 1
          in (Inl e,
              enc'\<lparr>consecutive_failures := failures,
                   degraded_mode := (if 5 < failures then True else degraded_mode enc')\<rparr>))"

section \<open>Priority scheduler: data model\<close>

text \<open>
  Embedding of \<^verbatim>\<open>src/messaging/priority_scheduler.py\<close>. Instants (\<^verbatim>\<open>datetime\<close> values and
  \<^verbatim>\<open>time.time()\<close> readings) are integers, in microseconds; the clock is an argument of
  every operation that reads it. The coroutines are run one at a time, each to its end,
  so the locks are always free where they are taken.
\<close>

datatype message_priority = CRITICAL | HIGH | MEDIUM | LOW

fun priority_value :: "message_priority \<Rightarrow> int" where
  "priority_value CRITICAL = 3"
| "priority_value HIGH = 2"
| "priority_value MEDIUM = 1"
| "priority_value LOW = 0"

datatype message_status = QUEUED | PROCESSING | COMPLETED | FAILED | TIMEOUT | DROPPED

text \<open>
  \<^verbatim>\<open>Message\<close>, with the fields of its \<^verbatim>\<open>TimeConstraints\<close> that the scheduler reads. The
  payload and the routing tags are never inspected and are left out.
\<close>

record message =
  message_id :: string
  priority :: message_priority
  bandwidth_required :: int
  processing_time_estimate :: rat
  deadline_timestamp :: "int option"
  timeout_ms :: rat
  creation_timestamp :: int
  last_update_timestamp :: int
  status :: message_status
  error_history :: "(int \<times> string) list"
  queue_time :: "int option"
  processing_start_time :: "int option"
  processing_end_time :: "int option"

text \<open>\<^verbatim>\<open>Message.__lt__\<close>: higher priority first, then the older message.\<close>

definition lt :: "message \<Rightarrow> message \<Rightarrow> bool" where
  "lt a b =
     (if priority_value (priority a) \<noteq> priority_value (priority b)
      then priority_value (priority b) < priority_value (priority a)
      else creation_timestamp a < creation_timestamp b)"

definition update_status :: "message \<Rightarrow> message_status \<Rightarrow> string \<Rightarrow> int \<Rightarrow> message" where
  "update_status m new_status error_msg now =
     (let m1 = m\<lparr>status := new_status, last_update_timestamp := now\<rparr> in
      if error_msg \<noteq> [] then m1\<lparr>error_history := error_history m1 @ [(now, error_msg)]\<rparr>
      else m1)"

definition is_expired :: "message \<Rightarrow> int \<Rightarrow> bool" where
  "is_expired m now = (case deadline_timestamp m of Some d \<Rightarrow> d < now | None \<Rightarrow> False)"

section \<open>The heap of a class queue\<close>

text \<open>
  The functions of Python's \<^verbatim>\<open>heapq\<close> module that the scheduler calls, on a list ordered
  by \<open>lt\<close>. \<^verbatim>\<open>_siftdown\<close> moves the item at \<open>pos\<close> towards the root.
\<close>

function siftdown_loop :: "message list \<Rightarrow> nat \<Rightarrow> nat \<Rightarrow> message \<Rightarrow> message list" where
  "siftdown_loop heap startpos pos newitem =
     (if startpos < pos then
        (let parentpos = (pos - 1) div 2;
             parent = heap ! parentpos
         in if lt newitem parent
            then siftdown_loop (heap[pos := parent]) startpos parentpos newitem
            else heap[pos := newitem])
      else heap[pos := newitem])"
  by pat_completeness auto
termination
  by (relation "measure (\<lambda>(heap, startpos, pos, newitem). pos)") auto

declare siftdown_loop.simps [simp del]

definition siftdown :: "message list \<Rightarrow> nat \<Rightarrow> nat \<Rightarrow> message list" where
  "siftdown heap startpos pos = siftdown_loop heap startpos pos (heap ! pos)"

definition heappush :: "message list \<Rightarrow> message \<Rightarrow> message list" where
  "heappush heap item = siftdown (heap @ [item]) 0 (length heap)"

text \<open>
  \<^verbatim>\<open>_siftup\<close>: the smaller child moves up until the hole is at a leaf, then the item is
  put into the hole and sifted towards \<open>startpos\<close>.
\<close>

function siftup_loop :: "message list \<Rightarrow> nat \<Rightarrow> message list \<times> nat" where
  "siftup_loop heap pos =
     (let childpos = 2 * pos + 1 in
      if childpos < length heap then
        (let rightpos = childpos + 1;
             c = (if rightpos < length heap \<and> \<not> lt (heap ! childpos) (heap ! rightpos)
                  then rightpos else childpos)
         in siftup_loop (heap[pos := heap ! c]) c)
      else (heap, pos))"
  by pat_completeness auto
termination
  by (relation "measure (\<lambda>(heap, pos). length heap - pos)") (auto split: if_splits)

declare siftup_loop.simps [simp del]

definition siftup :: "message list \<Rightarrow> nat \<Rightarrow> message list" where
  "siftup heap pos =
     (let newitem = heap ! pos in
      case siftup_loop heap pos of
        (heap', pos') \<Rightarrow> siftdown (heap'[pos' := newitem]) pos pos')"

text \<open>\<^verbatim>\<open>heappop\<close>; on an empty list \<^verbatim>\<open>heap.pop()\<close> raises \<^verbatim>\<open>IndexError\<close>.\<close>

definition heappop :: "message list \<Rightarrow> error + (message \<times> message list)" where
  "heappop heap =
     (if heap = [] then Inl IndexError
      else
        let lastelt = last heap;
            rest = butlast heap
        in if rest \<noteq> [] then Inr (rest ! 0, siftup (rest[0 := lastelt]) 0)
           else Inr (lastelt, rest))"

section \<open>Scheduler state and admission\<close>

text \<open>
  The scheduler object: the four class queues, the active-message index, the degraded
  flag, the error counters and the bounded history. A message object is shared between
  its queue and the index; here both hold its value, and a change made to a message that
  the index still refers to is written to the index as well (\<open>write_through\<close>).
\<close>

record scheduler =
  max_queue_size :: int
  priority_queues :: "message_priority \<Rightarrow> message list"
  active_messages :: "string \<Rightarrow> message option"
  sched_degraded_mode :: bool
  consecutive_errors :: "message_priority \<Rightarrow> nat"
  message_history :: "message list"

definition new_scheduler :: "int \<Rightarrow> scheduler" where
  "new_scheduler queue_size =
     \<lparr>max_queue_size = queue_size, priority_queues = (\<lambda>p. []), active_messages = (\<lambda>i. None),
      sched_degraded_mode = False, consecutive_errors = (\<lambda>p. 0), message_history = []\<rparr>"

definition set_queue :: "scheduler \<Rightarrow> message_priority \<Rightarrow> message list \<Rightarrow> scheduler" where
  "set_queue st p q = st\<lparr>priority_queues := (priority_queues st)(p := q)\<rparr>"

definition active_pop :: "scheduler \<Rightarrow> string \<Rightarrow> scheduler" where
  "active_pop st i = st\<lparr>active_messages := (active_messages st)(i := None)\<rparr>"

definition write_through :: "scheduler \<Rightarrow> message \<Rightarrow> scheduler" where
  "write_through st m =
     (if active_messages st (message_id m) \<noteq> None
      then st\<lparr>active_messages := (active_messages st)(message_id m := Some m)\<rparr>
      else st)"

text \<open>
  \<^verbatim>\<open>_cleanup_expired_messages\<close>: expired messages leave the queue and the index; the heap
  is rebuilt only when one was removed.
\<close>

definition cleanup_expired_messages ::
  "scheduler \<Rightarrow> int \<Rightarrow> message_priority \<Rightarrow> nat \<times> scheduler" where
  "cleanup_expired_messages st now p =
     (let queue = priority_queues st p;
          expired = filter (\<lambda>msg. is_expired msg now) queue;
          valid_messages = filter (\<lambda>msg. \<not> is_expired msg now) queue;
          expired_count = length expired
      in if 0 < expired_count then
           (expired_count,
            set_queue (fold (\<lambda>msg s. active_pop s (message_id msg)) expired st) p
              (foldl heappush [] valid_messages))
         else (expired_count, st))"

text \<open>
  \<^verbatim>\<open>_make_room_for_priority\<close>: the classes are visited from LOW upwards, those not below
  the incoming class are skipped, and the first non-empty queue loses its first message.
  The dropped message is returned with its new status. \<^verbatim>\<open>heappop\<close> is only called on a
  non-empty queue and cannot raise there.
\<close>

fun make_room_loop ::
  "scheduler \<Rightarrow> int \<Rightarrow> message_priority \<Rightarrow> message_priority list
     \<Rightarrow> message option \<times> scheduler" where
  "make_room_loop st now p [] = (None, st)"
| "make_room_loop st now p (lower_priority # rest) =
     (if priority_value p \<le> priority_value lower_priority then make_room_loop st now p rest
      else if priority_queues st lower_priority \<noteq> [] then
        (case heappop (priority_queues st lower_priority) of
           Inl e \<Rightarrow> (None, st)
         | Inr (removed_msg, queue') \<Rightarrow>
             (Some (update_status removed_msg DROPPED ''Dropped for higher priority message'' now),
              active_pop (set_queue st lower_priority queue') (message_id removed_msg)))
      else make_room_loop st now p rest)"

definition make_room_for_priority ::
  "scheduler \<Rightarrow> int \<Rightarrow> message_priority \<Rightarrow> message option \<times> scheduler" where
  "make_room_for_priority st now p = make_room_loop st now p (rev [CRITICAL, HIGH, MEDIUM, LOW])"

definition enqueue :: "scheduler \<Rightarrow> int \<Rightarrow> message \<Rightarrow> bool \<times> message \<times> scheduler" where
  "enqueue st now m =
     (let m1 = m\<lparr>queue_time := Some now\<rparr>;
          st1 = set_queue st (priority m1) (heappush (priority_queues st (priority m1)) m1)
      in (True, m1,
          st1\<lparr>active_messages := (active_messages st1)(message_id m1 := Some m1)\<rparr>))"

text \<open>
  \<^verbatim>\<open>_add_message_internal\<close>: the result, the message as the call leaves it, and the new
  state.
\<close>

definition add_message_internal ::
  "scheduler \<Rightarrow> int \<Rightarrow> message \<Rightarrow> bool \<times> message \<times> scheduler" where
  "add_message_internal st now m =
     (let p = priority m in
      if max_queue_size st \<le> int (length (priority_queues st p)) then
        (case cleanup_expired_messages st now p of
           (expired_count, st1) \<Rightarrow>
             if max_queue_size st1 \<le> int (length (priority_queues st1 p)) then
               (if p = CRITICAL \<or> p = HIGH then
                  (case make_room_for_priority st1 now p of
                     (dropped, st2) \<Rightarrow> enqueue st2 now m)
                else (False, update_status m DROPPED ''Queue full'' now, st1))
             else enqueue st1 now m)
      else enqueue st now m)"

text \<open>\<^verbatim>\<open>add_message\<close>: \<open>Inl\<close> is a raised exception, \<open>Inr\<close> the returned flag.\<close>

definition add_message ::
  "scheduler \<Rightarrow> int \<Rightarrow> message \<Rightarrow> (error + bool) \<times> message \<times> scheduler" where
  "add_message st now m =
     (if message_id m = [] then (Inl ValueError, m, st)
      else if bandwidth_required m \<le> 0 then (Inl ValueError, m, st)
      else if active_messages st (message_id m) \<noteq> None then (Inr False, m, st)
      else if sched_degraded_mode st \<and> priority m \<noteq> CRITICAL \<and> priority m \<noteq> HIGH
        then (Inr False, m, st)
      else
        (case add_message_internal st now m of
           (ok, m', st') \<Rightarrow> (Inr ok, m', st')))"

section \<open>Dispatch\<close>

text \<open>What a registered processor does with a message, within the processing timeout.\<close>

datatype processor_outcome = Returns bool | TimesOut | Raises string

text \<open>
  \<^verbatim>\<open>_process_single_message\<close>, for a message taken at \<open>now\<close> whose processing ends at
  \<open>end_time\<close>. Without a processor the default processing succeeds.
\<close>

definition process_single_message ::
  "scheduler \<Rightarrow> int \<Rightarrow> int \<Rightarrow> message \<Rightarrow> (message \<Rightarrow> processor_outcome) option
     \<Rightarrow> bool \<times> message \<times> scheduler" where
  "process_single_message st now end_time message processor =
     (let m1 = update_status (message\<lparr>processing_start_time := Some now\<rparr>) PROCESSING [] now in
      if is_expired m1 now then
        (let m2 = update_status m1 TIMEOUT ''Message expired before processing'' now
         in (False, m2, write_through st m2))
      else
        (case (case processor of Some f \<Rightarrow> f m1 | None \<Rightarrow> Returns True) of
           TimesOut \<Rightarrow>
             (let m2 = update_status m1 TIMEOUT ''Processing timeout'' end_time
              in (False, m2, write_through st m2))
         | Raises e \<Rightarrow>
             (let m2 = update_status m1 FAILED (''Processing error: '' @ e) end_time
              in (False, m2, write_through st m2))
         | Returns ok \<Rightarrow>
             (let m2 = m1\<lparr>processing_end_time := Some end_time\<rparr>;
                  m3 = (if ok then update_status m2 COMPLETED [] end_time
                        else update_status m2 FAILED ''Processor returned False'' end_time);
                  st1 = st\<lparr>message_history := deque_append 1000 (message_history st) m3\<rparr>
              in (ok, m3, active_pop st1 (message_id m3)))))"

text \<open>
  \<^verbatim>\<open>_process_next_message\<close> for one class: whether a message was taken, the message as
  processing leaves it, and the new state.
\<close>

definition process_next_message ::
  "scheduler \<Rightarrow> int \<Rightarrow> int \<Rightarrow> message_priority \<Rightarrow> (message \<Rightarrow> processor_outcome) option
     \<Rightarrow> bool \<times> message option \<times> scheduler" where
  "process_next_message st now end_time p processor =
     (if priority_queues st p = [] then (False, None, st)
      else
        (case heappop (priority_queues st p) of
           Inl e \<Rightarrow> (False, None, st)
         | Inr (message, queue') \<Rightarrow>
             (case process_single_message (set_queue st p queue') now end_time message
                     processor of
                (ok, m', st1) \<Rightarrow>
                  (True, Some m',
                   st1\<lparr>consecutive_errors :=
                         (consecutive_errors st1)
                           (p := (if ok then 0 else consecutive_errors st1 p + 1))\<rparr>))))"

section \<open>Invariants of the scheduler\<close>

text \<open>
  The order of a class queue: \<open>msg_le a b\<close> says that \<open>b\<close> does not come before \<open>a\<close>. A list
  is a heap when no item comes before the item at its parent position.
\<close>

definition msg_le :: "message \<Rightarrow> message \<Rightarrow> bool" where
  "msg_le a b = (\<not> lt b a)"

definition is_heap :: "message list \<Rightarrow> bool" where
  "is_heap h = (\<forall>i. 0 < i \<and> i < length h \<longrightarrow> msg_le (h ! ((i - 1) div 2)) (h ! i))"

text \<open>The child that \<^verbatim>\<open>_siftup\<close> moves up from the hole at the parent of \<open>childpos\<close>.\<close>

definition smaller_child :: "message list \<Rightarrow> nat \<Rightarrow> nat" where
  "smaller_child heap childpos =
     (if childpos + 1 < length heap \<and> \<not> lt (heap ! childpos) (heap ! (childpos + 1))
      then childpos + 1 else childpos)"

text \<open>
  What holds of every state the scheduler reaches: each class queue is a heap of messages
  of its class, and the MEDIUM and LOW queues respect the capacity.
\<close>

definition queue_ok :: "message_priority \<Rightarrow> message list \<Rightarrow> bool" where
  "queue_ok p q = (is_heap q \<and> (\<forall>m \<in> set q. priority m = p))"

definition sched_inv :: "scheduler \<Rightarrow> bool" where
  "sched_inv st =
     ((\<forall>p. queue_ok p (priority_queues st p))
      \<and> int (length (priority_queues st MEDIUM)) \<le> max_queue_size st
      \<and> int (length (priority_queues st LOW)) \<le> max_queue_size st)"

text \<open>An operation that only takes messages out of queues.\<close>

definition shrinks :: "scheduler \<Rightarrow> scheduler \<Rightarrow> bool" where
  "shrinks st st' =
     (max_queue_size st' = max_queue_size st
      \<and> (\<forall>q. is_heap (priority_queues st q) \<longrightarrow>
               is_heap (priority_queues st' q)
               \<and> set (priority_queues st' q) \<subseteq> set (priority_queues st q)
               \<and> length (priority_queues st' q) \<le> length (priority_queues st q)))"

text \<open>
  The states of a scheduler: a fresh one (the constructor rejects a capacity that is not
  positive), and the states after an admission, a dispatch step of one class, or an expiry
  sweep of one class. The last rule covers what the monitoring and maintenance loops do
  besides sweeping: they change the index, the degraded flag, the error counters and the
  history, and never a queue; any such change is allowed.
\<close>

inductive reachable :: "scheduler \<Rightarrow> bool" where
  start: "0 < queue_size \<Longrightarrow> reachable (new_scheduler queue_size)"
| admit: "reachable st \<Longrightarrow> reachable (snd (snd (add_message st now m)))"
| dispatch:
    "reachable st \<Longrightarrow>
     reachable (snd (snd (process_next_message st now end_time p processor)))"
| sweep: "reachable st \<Longrightarrow> reachable (snd (cleanup_expired_messages st now p))"
| housekeeping:
    "reachable st \<Longrightarrow>
     reachable (st\<lparr>active_messages := index, sched_degraded_mode := flag,
                   consecutive_errors := errors, message_history := history\<rparr>)"

text \<open>An encoder configured with 2048-bit blocks whose tracker last saw a clean channel.\<close>

definition enc_2048 :: ldpc_encoder where
  "enc_2048 =
     \<lparr>code_params = \<lparr>code_rate = 1 / 2, block_length = 2048, max_iterations = 50,
                      syndrome_threshold = 1 / 1000000\<rparr>,
      enable_adaptive_mode = True, enable_performance_tracking = True,
      memory_limit_bytes = 268435456, channel_conditions = [EXCELLENT],
      current_mode = STANDARD, mode_switch_history = [],
      matrix_cache = [((1 / 2, 2048), ([], []))], cache_access_times = [((1 / 2, 2048), 0)],
      consecutive_failures = 0, degraded_mode = False\<rparr>"

text \<open>
  A stand-in for the digest in examples: it tells any two bit strings apart, as MD5 does
  on the strings compared below.
\<close>

definition bits_digest :: "nat list \<Rightarrow> string" where
  "bits_digest bits = map (\<lambda>x. if x = 0 then CHR ''0'' else CHR ''1'') bits"

text \<open>
  \<^verbatim>\<open>LDPCEncoder(CodeParameters(code_rate=0.5, block_length=bl))\<close> with the defaults of the
  constructor.
\<close>

definition new_encoder :: "int \<Rightarrow> ldpc_encoder" where
  "new_encoder bl =
     \<lparr>code_params = \<lparr>code_rate = 1 / 2, block_length = bl, max_iterations = 50,
                      syndrome_threshold = 1 / 1000000\<rparr>,
      enable_adaptive_mode = True, enable_performance_tracking = True,
      memory_limit_bytes = 268435456, channel_conditions = [],
      current_mode = STANDARD, mode_switch_history = [],
      matrix_cache = [], cache_access_times = [],
      consecutive_failures = 0, degraded_mode = False\<rparr>"

text \<open>
  Two outcomes of the samplers, for block lengths 4 and 8 at rate 1/2: every parity row
  has three distinct columns, and the stored entries of \<open>P\<close> are all even, so \<open>P\<close> is zero
  after the reduction modulo 2. The clock never reaches a timeout.
\<close>

definition world_4 :: world where
  "world_4 =
     \<lparr>rng_choice = nth [[0, 1, 2], [0, 1, 3]], rng_P = nth [[0, 0], [0, 0]],
      md5 = bits_digest, elapsed = (\<lambda>j. 0), clock = 0\<rparr>"

definition world_8 :: world where
  "world_8 =
     \<lparr>rng_choice = nth [[0, 1, 2], [0, 3, 4], [0, 5, 6], [1, 2, 7]],
      rng_P = nth [[0, 0, 0, 0], [0, 0, 0, 0], [0, 0, 0, 0], [0, 0, 0, 0]],
      md5 = bits_digest, elapsed = (\<lambda>j. 0), clock = 0\<rparr>"

definition meta_4 :: metadata where
  "meta_4 =
     \<lparr>original_length = Some 4, encoded_length = Some 8, meta_code_rate = Some (1 / 2),
      meta_block_length = Some 4, padding_bits = Some 0, meta_mode = Some STANDARD,
      checksum = Some ''1010''\<rparr>"

definition meta_8 :: metadata where
  "meta_8 =
     \<lparr>original_length = Some 4, encoded_length = Some 8, meta_code_rate = Some (1 / 2),
      meta_block_length = Some 8, padding_bits = Some 0, meta_mode = Some STANDARD,
      checksum = Some ''1000''\<rparr>"

text \<open>A message as a producer builds it, with the defaults of the dataclass.\<close>

definition new_message :: "string \<Rightarrow> message_priority \<Rightarrow> int \<Rightarrow> int option \<Rightarrow> message" where
  "new_message i p created deadline =
     \<lparr>message_id = i, priority = p, bandwidth_required = 1000, processing_time_estimate = 0,
      deadline_timestamp = deadline, timeout_ms = 5000, creation_timestamp = created,
      last_update_timestamp = created, status = QUEUED, error_history = [],
      queue_time = None, processing_start_time = None, processing_end_time = None\<rparr>"

definition admitted :: "scheduler \<Rightarrow> int \<Rightarrow> message \<Rightarrow> scheduler" where
  "admitted st now m = snd (snd (add_message st now m))"

text \<open>
  A scheduler holding one MEDIUM message whose deadline is at instant 5, and the state
  after the MEDIUM dispatch loop has taken that message at instant 10.
\<close>

definition sched_expiring :: scheduler where
  "sched_expiring = admitted (new_scheduler 10) 0 (new_message ''m1'' MEDIUM 0 (Some 5))"

definition sched_after_expiry :: scheduler where
  "sched_after_expiry = snd (snd (process_next_message sched_expiring 10 11 MEDIUM None))"

text \<open>A scheduler of capacity 1 whose CRITICAL queue is full.\<close>

definition sched_full :: scheduler where
  "sched_full = admitted (new_scheduler 1) 0 (new_message ''c1'' CRITICAL 0 None)"

text \<open>A scheduler holding one CRITICAL and one LOW message.\<close>

definition sched_two_classes :: scheduler where
  "sched_two_classes =
     admitted (admitted (new_scheduler 10) 0 (new_message ''c1'' CRITICAL 0 None)) 1
       (new_message ''l1'' LOW 1 None)"

section \<open>Mode change (C9)\<close>

lemma switch_to_mode_Inr:
  assumes "switch_to_mode enc mode = Inr enc'"
  shows "code_params enc' =
           \<lparr>code_rate = fst (mode_params mode), block_length = snd (mode_params mode),
            max_iterations = max_iterations (code_params enc),
            syndrome_threshold = syndrome_threshold (code_params enc)\<rparr>"
    and "matrix_cache enc' = []" and "cache_access_times enc' = []"
  using assms
  by (auto simp: switch_to_mode_def CodeParameters_def split: prod.splits if_splits)

lemma snd_mode_params: "snd (mode_params mode) = 1024"
  by (cases mode) simp_all

text \<open>
  C9, as stated, fails: a mode change does not keep the block length. The encoder
  \<open>enc_2048\<close> runs with 2048-bit blocks; the adaptation step changes its mode from
  STANDARD to FAST and leaves it with 1024-bit blocks.
\<close>

theorem C9_block_length_counterexample:
  "current_mode (adapt_code_parameters enc_2048) = FAST
   \<and> current_mode enc_2048 = STANDARD
   \<and> block_length (code_params enc_2048) = 2048
   \<and> block_length (code_params (adapt_code_parameters enc_2048)) = 1024"
  by (simp add: adapt_code_parameters_def enc_2048_def get_current_channel_condition_def
      switch_to_mode_def CodeParameters_def deque_append_def)

text \<open>
  C9, amended: whenever the adaptation step changes the mode, the new code parameters
  carry the code rate of the new mode and the block length 1024 of the mode table, the
  iteration cap and the syndrome threshold are the ones from before the change, and the
  matrix cache and its access times are empty.
\<close>

theorem C9_mode_change:
  assumes "current_mode (adapt_code_parameters enc) \<noteq> current_mode enc"
  shows "code_rate (code_params (adapt_code_parameters enc))
           = fst (mode_params (current_mode (adapt_code_parameters enc)))
       \<and> block_length (code_params (adapt_code_parameters enc)) = 1024
       \<and> max_iterations (code_params (adapt_code_parameters enc))
           = max_iterations (code_params enc)
       \<and> syndrome_threshold (code_params (adapt_code_parameters enc))
           = syndrome_threshold (code_params enc)
       \<and> matrix_cache (adapt_code_parameters enc) = []
       \<and> cache_access_times (adapt_code_parameters enc) = []"
proof -
  let ?new = "mode_for_condition (get_current_channel_condition enc)"
  from assms have on: "enable_adaptive_mode enc" "enable_performance_tracking enc"
    and diff: "?new \<noteq> current_mode enc"
    by (auto simp: adapt_code_parameters_def Let_def split: if_splits)
  from assms on diff obtain enc' where sw: "switch_to_mode enc ?new = Inr enc'"
    by (cases "switch_to_mode enc ?new") (auto simp: adapt_code_parameters_def Let_def)
  have res: "adapt_code_parameters enc =
      enc'\<lparr>mode_switch_history :=
              deque_append 10 (mode_switch_history enc') (current_mode enc, ?new),
            current_mode := ?new\<rparr>"
    using on diff sw by (simp add: adapt_code_parameters_def Let_def)
  show ?thesis
    using switch_to_mode_Inr[OF sw] by (simp add: res snd_mode_params)
qed

theorem C9_mode_change_witness:
  "current_mode (adapt_code_parameters enc_2048) \<noteq> current_mode enc_2048
   \<and> code_rate (code_params (adapt_code_parameters enc_2048)) = 3 / 4
   \<and> max_iterations (code_params (adapt_code_parameters enc_2048)) = 50
   \<and> matrix_cache (adapt_code_parameters enc_2048) = []"
proof -
  have h: "current_mode (adapt_code_parameters enc_2048) \<noteq> current_mode enc_2048"
    by (simp add: adapt_code_parameters_def enc_2048_def get_current_channel_condition_def
        switch_to_mode_def CodeParameters_def deque_append_def)
  have m: "current_mode (adapt_code_parameters enc_2048) = FAST"
    by (simp add: adapt_code_parameters_def enc_2048_def get_current_channel_condition_def
        switch_to_mode_def CodeParameters_def deque_append_def)
  have p: "max_iterations (code_params enc_2048) = 50"
    by (simp add: enc_2048_def)
  show ?thesis
    using C9_mode_change[OF h] h by (simp add: m p)
qed

section \<open>The flip threshold in exact arithmetic\<close>

text \<open>
  The integer test \<open>exceeds_threshold\<close> decides exactly the comparison of the source,
  \<^verbatim>\<open>error_votes > np.mean(error_votes) + np.std(error_votes)\<close>, read over the reals with
  the population standard deviation.
\<close>

lemma sqrt_less_iff_sq:
  fixes x y :: real
  assumes "0 \<le> x"
  shows "sqrt x < y \<longleftrightarrow> 0 < y \<and> x < y * y"
proof (cases "0 < y")
  case True
  then have "sqrt x < y \<longleftrightarrow> sqrt x < sqrt (y * y)" by simp
  also have "\<dots> \<longleftrightarrow> x < y * y" by (rule real_sqrt_less_iff)
  finally show ?thesis using True by simp
next
  case False
  have "0 \<le> sqrt x" using assms by simp
  with False have "\<not> sqrt x < y" by linarith
  with False show ?thesis by simp
qed

lemma sum_list_scaled_dev:
  fixes n S :: real
  assumes "0 < n"
  shows "(\<Sum>x\<leftarrow>votes. (real x - S / n)\<^sup>2)
           = (\<Sum>x\<leftarrow>votes. (n * real x - S) * (n * real x - S)) / (n * n)"
proof (induction votes)
  case Nil
  show ?case by simp
next
  case (Cons a votes)
  have "(real a - S / n)\<^sup>2 = (n * real a - S) * (n * real a - S) / (n * n)"
    using assms by (simp add: field_simps power2_eq_square)
  with Cons show ?case by (simp add: add_divide_distrib)
qed

lemma real_sum_list_int:
  "real_of_int (\<Sum>x\<leftarrow>votes. (n * int x - S) * (n * int x - S))
     = (\<Sum>x\<leftarrow>votes. (real_of_int n * real x - real_of_int S) * (real_of_int n * real x - real_of_int S))"
  by (induction votes) simp_all

lemma exceeds_threshold_exact:
  assumes "votes \<noteq> []"
  shows "exceeds_threshold votes v \<longleftrightarrow>
           (let n = real (length votes);
                mean = (\<Sum>x\<leftarrow>votes. real x) / n;
                std = sqrt ((\<Sum>x\<leftarrow>votes. (real x - mean)\<^sup>2) / n)
            in mean + std < real v)"
proof -
  define n where "n = real (length votes)"
  define S where "S = (\<Sum>x\<leftarrow>votes. real x)"
  define D where "D = (\<Sum>x\<leftarrow>votes. (n * real x - S) * (n * real x - S))"
  define d where "d = n * real v - S"
  have n: "0 < n" using assms by (simp add: n_def)
  have D0: "0 \<le> D" unfolding D_def by (rule sum_list_nonneg) auto
  have var: "(\<Sum>x\<leftarrow>votes. (real x - S / n)\<^sup>2) / n = D / (n * n * n)"
    using sum_list_scaled_dev[OF n, where votes = votes and S = S] by (simp add: D_def)
  have var0: "0 \<le> D / (n * n * n)" using D0 n by simp
  have "S / n + sqrt (D / (n * n * n)) < real v \<longleftrightarrow> sqrt (D / (n * n * n)) < d / n"
    using n by (simp add: d_def field_simps)
  also have "\<dots> \<longleftrightarrow> 0 < d / n \<and> D / (n * n * n) < (d / n) * (d / n)"
    by (rule sqrt_less_iff_sq[OF var0])
  also have "\<dots> \<longleftrightarrow> 0 < d \<and> D < n * (d * d)"
    using n by (simp add: field_simps zero_less_divide_iff)
  finally have real_form:
    "S / n + sqrt (D / (n * n * n)) < real v \<longleftrightarrow> 0 < d \<and> D < n * (d * d)" .
  have Si: "S = real_of_int (int (sum_list votes))"
    unfolding S_def by (induction votes) simp_all
  have ni: "n = real_of_int (int (length votes))" by (simp add: n_def)
  have di: "d = real_of_int (int (length votes) * int v - int (sum_list votes))"
    by (simp add: d_def Si ni)
  have Di: "D = real_of_int (\<Sum>x\<leftarrow>votes.
      (int (length votes) * int x - int (sum_list votes))
      * (int (length votes) * int x - int (sum_list votes)))"
    unfolding D_def Si ni real_sum_list_int by simp
  have "exceeds_threshold votes v \<longleftrightarrow> 0 < d \<and> D < n * (d * d)"
    unfolding exceeds_threshold_def Let_def di Di ni
    by (simp only: of_int_0_less_iff of_int_less_iff of_int_mult [symmetric])
  with real_form show ?thesis
    by (simp add: Let_def n_def S_def var[unfolded S_def n_def, symmetric])
qed

section \<open>Generated matrices (C1)\<close>

lemma world_4_valid: "valid_rng world_4 4 2"
  unfolding valid_rng_def by code_simp

lemma world_8_valid: "valid_rng world_8 8 4"
  unfolding valid_rng_def by code_simp

text \<open>
  C1 fails on the code: \<open>P\<close> is sampled independently of \<open>H\<close>. For block length 4 and rate
  1/2 the generator returns the pair below from the outcome \<open>world_4\<close>, and the codeword
  of the information block \<open>[1, 0]\<close> has the syndrome \<open>[1, 1]\<close>, not zero.
\<close>

theorem C1_syndrome_nonzero:
  "generate_ldpc_matrices (new_encoder 4) world_4 (1 / 2) 4
     = Inr ([[1, 0, 0, 0], [0, 1, 0, 0]], [[0, 1, 2], [0, 1, 3]])
   \<and> vec_mat_mod2 4 [1, 0] [[1, 0, 0, 0], [0, 1, 0, 0]] = [1, 0, 0, 0]
   \<and> syndrome [[0, 1, 2], [0, 1, 3]] [1, 0, 0, 0] = [1, 1]"
  by code_simp

section \<open>Round trip (C2)\<close>

lemma encode_blocks_raises:
  "blocks \<noteq> [] \<Longrightarrow> encode_blocks w tmo G n j blocks acc = Inl AttributeError"
  by (cases blocks) (simp_all add: ndarray_toarray_def)

lemma encode_blocks_Inr:
  "encode_blocks w tmo G n j blocks acc = Inr out \<Longrightarrow> blocks = [] \<and> out = acc"
  by (cases blocks) (simp_all add: ndarray_toarray_def)

text \<open>No call of encode returns: whatever the input, it ends in an exception.\<close>

lemma encode_body_never_returns: "\<exists>e. fst (encode_body enc w data tmo) = Inl e"
  by (auto simp: encode_body_def Let_def split: prod.splits sum.splits dest!: encode_blocks_Inr)

lemma encode_never_returns: "\<exists>e. fst (encode enc w data tmo) = Inl e"
proof -
  obtain r enc' where b: "encode_body enc w data tmo = (r, enc')"
    by (cases "encode_body enc w data tmo")
  with encode_body_never_returns[of enc w data tmo] obtain e where "r = Inl e" by auto
  with b show ?thesis by (simp add: encode_def Let_def)
qed

text \<open>
  The block decoder hands back the leading bits of the block it received, so decode
  recovers the information bits of a systematic codeword that reaches it untouched.
\<close>

lemma decode_block_returns_received:
  assumes "0 < max_iterations cp"
  shows "decode_block cp H k r = ((if k \<le> length r then take k r else r), 0, NormInf, [])"
proof -
  from assms obtain left where "nat (max_iterations cp) = Suc left"
    by (cases "nat (max_iterations cp)") auto
  then show ?thesis by (simp add: decode_block_def ndarray_toarray_def)
qed

lemma decode_of_untouched_codeword:
  "fst (decode (new_encoder 8) world_8 [1, 0, 0, 0, 0, 0, 0, 0] meta_8 30)
     = Inr \<lparr>success = True, corrected_data = Some [1, 0, 0, 0], iterations_used = 0,
            syndrome_norm = NormInf, error_positions = [], bit_error_rate = 0\<rparr>"
  by code_simp


section \<open>Frame of decode (C10)\<close>

lemma get_matrices_code_params: "code_params (snd (get_matrices enc w)) = code_params enc"
  by (auto simp: get_matrices_def cache_store_def Let_def
      split: option.splits sum.splits list.splits)

lemma record_decoding_code_params: "code_params (record_decoding enc res) = code_params enc"
  by (simp add: record_decoding_def)

lemma decode_guarded_code_params:
  "code_params (snd (decode_guarded enc w data meta tmo)) = code_params enc"
  by (auto simp: decode_guarded_def Let_def split: option.splits sum.splits prod.splits)

text \<open>
  C10: after every call of decode, whatever it returns, the encoder holds the code
  parameters it held before the call.
\<close>

theorem C10_decode_restores_code_params:
  "code_params (snd (decode enc w data meta tmo)) = code_params enc"
proof -
  obtain res enc' where g: "decode_guarded enc w data meta tmo = (res, enc')"
    by (cases "decode_guarded enc w data meta tmo")
  with decode_guarded_code_params[of enc w data meta tmo]
  have cp: "code_params enc' = code_params enc" by simp
  show ?thesis
    by (cases res) (simp_all add: decode_def g cp Let_def record_decoding_code_params)
qed

section \<open>Failures of decode (C6)\<close>

lemma decode_returns: "\<exists>res. fst (decode enc w data meta tmo) = Inr res"
  by (auto simp: decode_def Let_def split: prod.splits sum.splits)

text \<open>
  Every exception of the guarded part, the timeout of the block loop among them, ends in
  the failed result.
\<close>

lemma decode_guarded_error_is_failed_result:
  "fst (decode_guarded enc w data meta tmo) = Inl e \<Longrightarrow>
   fst (decode enc w data meta tmo) = Inr failed_result"
  by (cases "decode_guarded enc w data meta tmo") (simp add: decode_def Let_def)

lemma decode_blocks_timeout:
  "tmo < elapsed w j \<Longrightarrow> decode_blocks cp w tmo H k n j (b # bs) acc = Inl TimeoutError"
  by (cases acc) simp

text \<open>
  C6 fails on the code in its second half: the check for the original length raises
  inside the \<^verbatim>\<open>try\<close> block whose handler catches every exception, so a call with
  metadata that lacks the original length returns the failed result instead of raising.
\<close>

theorem C6_missing_length_returns_failed:
  "fst (decode enc w data (meta\<lparr>original_length := None\<rparr>) tmo) = Inr failed_result"
  by (simp add: decode_def decode_guarded_def Let_def)

section \<open>Iterations reported by decode (C7)\<close>

lemma decode_blocks_iterations:
  assumes "0 < max_iterations cp"
    and "decode_blocks cp w tmo H k n j bs (d, tot, mx, errs) = Inr (d', tot', mx', errs')"
  shows "tot' = tot"
  using assms(2)
proof (induction bs arbitrary: j d tot mx errs)
  case Nil
  then show ?case by simp
next
  case (Cons b bs)
  let ?r = "b @ replicate (n - length b) 0"
  from Cons.prems have rec: "decode_blocks cp w tmo H k n (Suc j) bs
      (d @ [if k \<le> length ?r then take k ?r else ?r], tot + 0, norm_max mx NormInf,
       errs @ map (\<lambda>pos. pos + (j * n) * k) [])
        = Inr (d', tot', mx', errs')"
    by (simp add: decode_block_returns_received[OF assms(1)] split: if_splits)
  from Cons.IH[OF rec] show ?case by simp
qed

lemma decode_body_iterations:
  assumes "0 < max_iterations (code_params enc)"
    and "decode_body enc w data meta ol rate bl padding tmo = (Inr res, enc')"
  shows "iterations_used res = 0"
proof -
  obtain r0 enc1 where gm: "get_matrices enc w = (r0, enc1)"
    by (cases "get_matrices enc w")
  from get_matrices_code_params[of enc w] gm have cp: "code_params enc1 = code_params enc"
    by simp
  from assms(2) gm obtain G H where r0: "r0 = Inr (G, H)"
    by (cases r0) (auto simp: decode_body_def)
  from assms(2) gm r0 obtain d tot mx errs where
    blocks: "decode_blocks (code_params enc) w tmo H (nat (info_bits bl rate)) (nat bl) 0
               (chunks (nat bl) data) ([], 0, NormSqrt 0, []) = Inr (d, tot, mx, errs)"
    and res: "iterations_used res = tot"
    by (auto simp: decode_body_def cp Let_def split: sum.splits if_splits)
  from decode_blocks_iterations[OF assms(1) blocks] res show ?thesis by simp
qed

text \<open>
  C7: for an encoder whose iteration cap is positive, as the constructor of
  \<^verbatim>\<open>CodeParameters\<close> requires, decode always returns a result, and the iterations it
  reports are at most the cap, whatever the number of blocks. (Every block is reported with
  no iteration: its first syndrome check raises and the handler of the block decoder
  answers.)
\<close>

theorem C7_iterations_within_cap:
  assumes "0 < max_iterations (code_params enc)"
  shows "\<exists>res. fst (decode enc w data meta tmo) = Inr res
          \<and> iterations_used res \<le> max_iterations (code_params enc)"
proof (cases "decode_guarded enc w data meta tmo")
  case (Pair r enc')
  show ?thesis
  proof (cases r)
    case (Inl e)
    with Pair assms show ?thesis
      by (simp add: decode_def Let_def failed_result_def)
  next
    case (Inr res)
    let ?bl = "case meta_block_length meta of
                 Some b \<Rightarrow> b | None \<Rightarrow> block_length (code_params enc)"
    from Pair Inr obtain ol rate padding cp enc'' where
      cp: "CodeParameters rate ?bl (max_iterations (code_params enc))
             (syndrome_threshold (code_params enc)) = Inr cp"
      and body: "decode_body (enc\<lparr>code_params := cp\<rparr>) w data meta ol rate ?bl padding tmo
                   = (Inr res, enc'')"
      by (auto simp: decode_guarded_def Let_def split: option.splits sum.splits prod.splits)
    from cp have mi: "max_iterations cp = max_iterations (code_params enc)"
      by (auto simp: CodeParameters_def split: if_splits)
    from decode_body_iterations[OF _ body] mi assms
    have "iterations_used res = 0" by simp
    with Pair Inr assms show ?thesis by (simp add: decode_def)
  qed
qed

theorem C7_iterations_within_cap_witness:
  "0 < max_iterations (code_params (new_encoder 4))
   \<and> (\<exists>res. fst (decode (new_encoder 4) world_4 [1, 0, 0, 0, 1, 0, 0, 0] meta_4 30) = Inr res
         \<and> iterations_used res \<le> 50)"
proof -
  have h: "0 < max_iterations (code_params (new_encoder 4))"
    by (simp add: new_encoder_def)
  have n: "max_iterations (code_params (new_encoder 4)) = 50"
    by (simp add: new_encoder_def)
  show ?thesis
    using C7_iterations_within_cap[OF h, of world_4 "[1, 0, 0, 0, 1, 0, 0, 0]" meta_4 30] h
    unfolding n by simp
qed

section \<open>Lifecycle of a dispatched message (C4)\<close>

text \<open>
  C4 fails on the code: the branch of \<^verbatim>\<open>_process_single_message\<close> for an expired message
  returns before the message is taken out of the active-message index (as do the branches
  for a processing timeout and for an exception), while the branch for a processor that
  returned does take it out. The message \<open>m1\<close> is admitted, expires, and is taken by its
  dispatch loop: afterwards its status is TIMEOUT, no queue holds it, and the index still
  holds it, so that a new message with the same id is rejected as a duplicate.
\<close>

theorem C4_expired_message_stays_indexed:
  "fst (add_message (new_scheduler 10) 0 (new_message ''m1'' MEDIUM 0 (Some 5))) = Inr True
   \<and> map_option status (fst (snd (process_next_message sched_expiring 10 11 MEDIUM None)))
       = Some TIMEOUT
   \<and> priority_queues sched_after_expiry CRITICAL = []
   \<and> priority_queues sched_after_expiry HIGH = []
   \<and> priority_queues sched_after_expiry MEDIUM = []
   \<and> priority_queues sched_after_expiry LOW = []
   \<and> map_option status (active_messages sched_after_expiry ''m1'') = Some TIMEOUT
   \<and> fst (add_message sched_after_expiry 12 (new_message ''m1'' MEDIUM 12 None)) = Inr False"
  by code_simp

section \<open>Capacity of a class queue (C5)\<close>

text \<open>
  C5 fails on the code: for a CRITICAL or HIGH message the eviction takes a message out
  of a lower class, which frees no place in the full target queue, and the message is
  then pushed without a second check. With capacity 1 and a full CRITICAL queue, a second
  CRITICAL message is admitted and the queue holds two messages.
\<close>

theorem C5_critical_queue_exceeds_capacity:
  "max_queue_size sched_full = 1
   \<and> map message_id (priority_queues sched_full CRITICAL) = [''c1'']
   \<and> fst (add_message sched_full 1 (new_message ''c2'' CRITICAL 1 None)) = Inr True
   \<and> map message_id
        (priority_queues (admitted sched_full 1 (new_message ''c2'' CRITICAL 1 None)) CRITICAL)
       = [''c1'', ''c2'']"
  by code_simp

section \<open>The heap operations keep the heap\<close>

text \<open>The order of \<^verbatim>\<open>Message.__lt__\<close> is a total preorder.\<close>

lemma msg_le_refl: "msg_le a a"
  by (simp add: msg_le_def lt_def)

lemma msg_le_trans: "msg_le a b \<Longrightarrow> msg_le b c \<Longrightarrow> msg_le a c"
  by (auto simp: msg_le_def lt_def split: if_splits)

lemma lt_msg_le: "lt a b \<Longrightarrow> msg_le a b"
  by (auto simp: msg_le_def lt_def split: if_splits)

lemma not_lt_msg_le: "\<not> lt a b \<Longrightarrow> msg_le b a"
  by (simp add: msg_le_def)

lemma parent_less: "0 < i \<Longrightarrow> (i - 1) div 2 < (i::nat)"
  by arith

lemma length_siftdown_loop [simp]: "length (siftdown_loop h s pos x) = length h"
proof (induction h s pos x rule: siftdown_loop.induct)
  case (1 heap startpos pos newitem)
  show ?case
    using "1.IH" by (subst siftdown_loop.simps) (simp add: Let_def)
qed

lemma set_siftdown_loop:
  "pos < length h \<Longrightarrow> set (siftdown_loop h s pos x) \<subseteq> insert x (set h)"
proof (induction h s pos x rule: siftdown_loop.induct)
  case (1 heap startpos pos newitem)
  let ?pp = "(pos - 1) div 2"
  show ?case
  proof (cases "startpos < pos \<and> lt newitem (heap ! ?pp)")
    case True
    then have pp: "?pp < length heap" using "1.prems" by auto
    have "set (siftdown_loop (heap[pos := heap ! ?pp]) startpos ?pp newitem)
            \<subseteq> insert newitem (set (heap[pos := heap ! ?pp]))"
      using "1.IH"[OF _ refl refl] True pp by simp
    also have "\<dots> \<subseteq> insert newitem (set heap)"
      using set_update_subset_insert[of heap pos "heap ! ?pp"] pp by auto
    finally show ?thesis
      using True by (subst siftdown_loop.simps) (simp add: Let_def)
  next
    case False
    then have "siftdown_loop heap startpos pos newitem = heap[pos := newitem]"
      by (subst siftdown_loop.simps) (auto simp: Let_def)
    then show ?thesis
      using set_update_subset_insert[of heap pos newitem] by simp
  qed
qed

text \<open>
  \<^verbatim>\<open>_siftdown\<close> with a hole at \<open>pos\<close>: when every edge of the tree that does not touch the
  hole is in order, the new item is not after the children of the hole, and the parent of
  the hole is not after those children, the result is a heap.
\<close>

lemma is_heap_siftdown_loop:
  assumes "pos < length h"
    and "\<forall>i. 0 < i \<and> i < length h \<and> i \<noteq> pos \<and> (i - 1) div 2 \<noteq> pos
            \<longrightarrow> msg_le (h ! ((i - 1) div 2)) (h ! i)"
    and "\<forall>c. 0 < c \<and> c < length h \<and> (c - 1) div 2 = pos \<longrightarrow> msg_le x (h ! c)"
    and "\<forall>c. 0 < c \<and> c < length h \<and> (c - 1) div 2 = pos \<and> 0 < pos
            \<longrightarrow> msg_le (h ! ((pos - 1) div 2)) (h ! c)"
  shows "is_heap (siftdown_loop h 0 pos x)"
  using assms
proof (induction h "0::nat" pos x rule: siftdown_loop.induct)
  case (1 heap pos newitem)
  let ?pp = "(pos - 1) div 2"
  show ?case
  proof (cases "0 < pos \<and> lt newitem (heap ! ?pp)")
    case False
    then have res: "siftdown_loop heap 0 pos newitem = heap[pos := newitem]"
      by (subst siftdown_loop.simps) (auto simp: Let_def)
    have "msg_le (heap[pos := newitem] ! ((i - 1) div 2)) (heap[pos := newitem] ! i)"
      if i: "0 < i" "i < length heap" for i
    proof (cases "i = pos")
      case True
      with i False have "msg_le (heap ! ?pp) newitem" by (auto intro: not_lt_msg_le)
      moreover have "?pp \<noteq> pos" using True i by auto
      ultimately show ?thesis using True i "1.prems"(1) by simp
    next
      case ne: False
      show ?thesis
      proof (cases "(i - 1) div 2 = pos")
        case True
        with i "1.prems"(3) have "msg_le newitem (heap ! i)" by blast
        with True ne "1.prems"(1) show ?thesis by simp
      next
        case False
        with ne i "1.prems"(2) have "msg_le (heap ! ((i - 1) div 2)) (heap ! i)" by blast
        with False ne show ?thesis by simp
      qed
    qed
    then show ?thesis by (simp add: res is_heap_def)
  next
    case True
    then have pos: "0 < pos" and less: "lt newitem (heap ! ?pp)" by auto
    have pp_lt: "?pp < pos" using pos by (rule parent_less)
    let ?h1 = "heap[pos := heap ! ?pp]"
    have res: "siftdown_loop heap 0 pos newitem = siftdown_loop ?h1 0 ?pp newitem"
      using True by (subst siftdown_loop.simps) (simp add: Let_def)
    have edge: "msg_le (heap ! ((i - 1) div 2)) (heap ! i)"
      if "0 < i" "i < length heap" "i \<noteq> pos" "(i - 1) div 2 \<noteq> pos" for i
      using that "1.prems"(2) by blast
    have a1: "?pp < length ?h1" using pp_lt "1.prems"(1) by simp
    have a2: "\<forall>i. 0 < i \<and> i < length ?h1 \<and> i \<noteq> ?pp \<and> (i - 1) div 2 \<noteq> ?pp
            \<longrightarrow> msg_le (?h1 ! ((i - 1) div 2)) (?h1 ! i)"
    proof (intro allI impI)
      fix i assume i: "0 < i \<and> i < length ?h1 \<and> i \<noteq> ?pp \<and> (i - 1) div 2 \<noteq> ?pp"
      then have ipos: "i \<noteq> pos" by auto
      show "msg_le (?h1 ! ((i - 1) div 2)) (?h1 ! i)"
      proof (cases "(i - 1) div 2 = pos")
        case True
        with i pos "1.prems"(4) have "msg_le (heap ! ?pp) (heap ! i)" by simp
        with True ipos "1.prems"(1) show ?thesis by simp
      next
        case False
        with i ipos edge[of i] show ?thesis by simp
      qed
    qed
    have a3: "\<forall>c. 0 < c \<and> c < length ?h1 \<and> (c - 1) div 2 = ?pp \<longrightarrow> msg_le newitem (?h1 ! c)"
    proof (intro allI impI)
      fix c assume c: "0 < c \<and> c < length ?h1 \<and> (c - 1) div 2 = ?pp"
      show "msg_le newitem (?h1 ! c)"
      proof (cases "c = pos")
        case True
        with less "1.prems"(1) show ?thesis by (simp add: lt_msg_le)
      next
        case False
        with c pp_lt edge[of c] have "msg_le (heap ! ?pp) (heap ! c)" by simp
        with less False show ?thesis by (auto intro: msg_le_trans lt_msg_le)
      qed
    qed
    have a4: "\<forall>c. 0 < c \<and> c < length ?h1 \<and> (c - 1) div 2 = ?pp \<and> 0 < ?pp
            \<longrightarrow> msg_le (?h1 ! ((?pp - 1) div 2)) (?h1 ! c)"
    proof (intro allI impI)
      fix c assume c: "0 < c \<and> c < length ?h1 \<and> (c - 1) div 2 = ?pp \<and> 0 < ?pp"
      have gp: "(?pp - 1) div 2 < ?pp" using c parent_less[of ?pp] by blast
      have e1: "msg_le (heap ! ((?pp - 1) div 2)) (heap ! ?pp)"
        using edge[of ?pp] c pp_lt "1.prems"(1) gp by simp
      have g: "?h1 ! ((?pp - 1) div 2) = heap ! ((?pp - 1) div 2)"
        using gp pp_lt by simp
      show "msg_le (?h1 ! ((?pp - 1) div 2)) (?h1 ! c)"
      proof (cases "c = pos")
        case True
        with e1 g "1.prems"(1) show ?thesis by simp
      next
        case False
        with c pp_lt edge[of c] have "msg_le (heap ! ?pp) (heap ! c)" by simp
        with e1 g False show ?thesis by (auto intro: msg_le_trans)
      qed
    qed
    show ?thesis
      unfolding res by (rule "1.hyps"[OF pos refl refl less a1 a2 a3 a4])
  qed
qed

lemma length_heappush [simp]: "length (heappush h x) = Suc (length h)"
  by (simp add: heappush_def siftdown_def)

lemma set_heappush: "set (heappush h x) \<subseteq> insert x (set h)"
  using set_siftdown_loop[of "length h" "h @ [x]" 0 x]
  by (auto simp: heappush_def siftdown_def)

lemma is_heap_heappush:
  assumes "is_heap h"
  shows "is_heap (heappush h x)"
proof -
  let ?h = "h @ [x]"
  have e: "msg_le (?h ! ((i - 1) div 2)) (?h ! i)"
    if "0 < i" "i < length ?h" "i \<noteq> length h" for i
  proof -
    from that have i: "i < length h" by simp
    with that(1) have "(i - 1) div 2 < length h" using parent_less[of i] by linarith
    with i that(1) assms show ?thesis by (simp add: is_heap_def nth_append)
  qed
  have "is_heap (siftdown_loop ?h 0 (length h) x)"
  proof (rule is_heap_siftdown_loop)
    show "length h < length ?h" by simp
    show "\<forall>i. 0 < i \<and> i < length ?h \<and> i \<noteq> length h \<and> (i - 1) div 2 \<noteq> length h
            \<longrightarrow> msg_le (?h ! ((i - 1) div 2)) (?h ! i)"
      using e by blast
    show "\<forall>c. 0 < c \<and> c < length ?h \<and> (c - 1) div 2 = length h \<longrightarrow> msg_le x (?h ! c)"
      by (auto dest: parent_less)
    show "\<forall>c. 0 < c \<and> c < length ?h \<and> (c - 1) div 2 = length h \<and> 0 < length h
            \<longrightarrow> msg_le (?h ! ((length h - 1) div 2)) (?h ! c)"
      by (auto dest: parent_less)
  qed
  then show ?thesis by (simp add: heappush_def siftdown_def)
qed

text \<open>The first item of a heap is not after any other item.\<close>

lemma is_heap_root_min:
  assumes "is_heap h" "i < length h"
  shows "msg_le (h ! 0) (h ! i)"
  using assms(2)
proof (induction i rule: less_induct)
  case (less i)
  show ?case
  proof (cases "i = 0")
    case True
    then show ?thesis by (simp add: msg_le_refl)
  next
    case False
    then have p: "(i - 1) div 2 < i" by (simp add: parent_less)
    with less.prems have "(i - 1) div 2 < length h" by linarith
    from less.IH[OF p this] have "msg_le (h ! 0) (h ! ((i - 1) div 2))" .
    moreover from assms(1) False less.prems have "msg_le (h ! ((i - 1) div 2)) (h ! i)"
      by (simp add: is_heap_def)
    ultimately show ?thesis by (rule msg_le_trans)
  qed
qed

lemma siftup_loop_leaf: "\<not> 2 * pos + 1 < length heap \<Longrightarrow> siftup_loop heap pos = (heap, pos)"
  by (subst siftup_loop.simps) (simp add: Let_def)

lemma siftup_loop_step:
  "2 * pos + 1 < length heap \<Longrightarrow>
   siftup_loop heap pos =
     siftup_loop (heap[pos := heap ! smaller_child heap (2 * pos + 1)])
       (smaller_child heap (2 * pos + 1))"
  by (subst siftup_loop.simps) (simp add: Let_def smaller_child_def)

lemma smaller_child_cases:
  "smaller_child heap c = c \<or> smaller_child heap c = c + 1"
  by (simp add: smaller_child_def)

lemma smaller_child_less: "c < length heap \<Longrightarrow> smaller_child heap c < length heap"
  by (simp add: smaller_child_def)

lemma smaller_child_le_left: "msg_le (heap ! smaller_child heap c) (heap ! c)"
  by (auto simp: smaller_child_def msg_le_refl intro: not_lt_msg_le)

lemma smaller_child_le_right:
  "c + 1 < length heap \<Longrightarrow> msg_le (heap ! smaller_child heap c) (heap ! (c + 1))"
  by (auto simp: smaller_child_def msg_le_refl intro: lt_msg_le)

lemma child_cases: "0 < i \<Longrightarrow> (i - 1) div 2 = pos \<Longrightarrow> i = 2 * pos + 1 \<or> i = 2 * pos + 2"
  for i :: nat
  by arith

text \<open>
  The loop of \<^verbatim>\<open>_siftup\<close> keeps every edge that does not touch the hole in order, and ends
  with the hole at a leaf.
\<close>

lemma siftup_loop_inv:
  assumes "siftup_loop h pos = (h', pos')"
    and "pos < length h"
    and "\<forall>i. 0 < i \<and> i < length h \<and> i \<noteq> pos \<and> (i - 1) div 2 \<noteq> pos
            \<longrightarrow> msg_le (h ! ((i - 1) div 2)) (h ! i)"
    and "\<forall>c. 0 < c \<and> c < length h \<and> (c - 1) div 2 = pos \<and> 0 < pos
            \<longrightarrow> msg_le (h ! ((pos - 1) div 2)) (h ! c)"
  shows "length h' = length h \<and> pos' < length h \<and> \<not> 2 * pos' + 1 < length h
         \<and> set h' \<subseteq> set h
         \<and> (\<forall>i. 0 < i \<and> i < length h \<and> i \<noteq> pos' \<and> (i - 1) div 2 \<noteq> pos'
                \<longrightarrow> msg_le (h' ! ((i - 1) div 2)) (h' ! i))"
  using assms
proof (induction "length h - pos" arbitrary: h pos rule: less_induct)
  case less
  show ?case
  proof (cases "2 * pos + 1 < length h")
    case False
    with less.prems(1) have "h' = h" "pos' = pos" by (simp_all add: siftup_loop_leaf)
    with False less.prems show ?thesis by simp
  next
    case True
    let ?lc = "2 * pos + 1"
    let ?c = "smaller_child h ?lc"
    let ?h1 = "h[pos := h ! ?c]"
    have c_less: "?c < length h" using True by (rule smaller_child_less)
    have c_cases: "?c = ?lc \<or> ?c = ?lc + 1" by (rule smaller_child_cases)
    then have c_pos: "pos < ?c" and c_par: "(?c - 1) div 2 = pos" and c0: "0 < ?c" by auto
    have run: "siftup_loop ?h1 ?c = (h', pos')"
      using less.prems(1) True by (simp add: siftup_loop_step)
    have edge: "msg_le (h ! ((i - 1) div 2)) (h ! i)"
      if "0 < i" "i < length h" "i \<noteq> pos" "(i - 1) div 2 \<noteq> pos" for i
      using that less.prems(3) by blast
    have a2: "\<forall>i. 0 < i \<and> i < length ?h1 \<and> i \<noteq> ?c \<and> (i - 1) div 2 \<noteq> ?c
                \<longrightarrow> msg_le (?h1 ! ((i - 1) div 2)) (?h1 ! i)"
    proof (intro allI impI)
      fix i assume i: "0 < i \<and> i < length ?h1 \<and> i \<noteq> ?c \<and> (i - 1) div 2 \<noteq> ?c"
      show "msg_le (?h1 ! ((i - 1) div 2)) (?h1 ! i)"
      proof (cases "i = pos")
        case True
        then have "0 < pos" using i by simp
        with less.prems(4) c0 c_less c_par have "msg_le (h ! ((pos - 1) div 2)) (h ! ?c)" by blast
        moreover have "(pos - 1) div 2 \<noteq> pos" using \<open>0 < pos\<close> parent_less[of pos] by simp
        ultimately show ?thesis using True less.prems(2) by simp
      next
        case ne: False
        show ?thesis
        proof (cases "(i - 1) div 2 = pos")
          case True
          with i have "i = ?lc \<or> i = ?lc + 1" using child_cases[of i pos] by simp
          then have "msg_le (h ! ?c) (h ! i)"
          proof
            assume "i = ?lc"
            then show ?thesis using smaller_child_le_left[of h ?lc] by simp
          next
            assume r: "i = ?lc + 1"
            with i have "?lc + 1 < length h" by simp
            from smaller_child_le_right[OF this] r show ?thesis by simp
          qed
          with True ne less.prems(2) show ?thesis by simp
        next
          case False
          with ne i edge[of i] show ?thesis by simp
        qed
      qed
    qed
    have a3: "\<forall>d. 0 < d \<and> d < length ?h1 \<and> (d - 1) div 2 = ?c \<and> 0 < ?c
                \<longrightarrow> msg_le (?h1 ! ((?c - 1) div 2)) (?h1 ! d)"
    proof (intro allI impI)
      fix d assume d: "0 < d \<and> d < length ?h1 \<and> (d - 1) div 2 = ?c \<and> 0 < ?c"
      then have "d \<noteq> pos" using c_pos parent_less[of d] by linarith
      moreover have "(d - 1) div 2 \<noteq> pos" using d c_pos by simp
      ultimately have "msg_le (h ! ?c) (h ! d)" using edge[of d] d by simp
      with c_par \<open>d \<noteq> pos\<close> less.prems(2) show "msg_le (?h1 ! ((?c - 1) div 2)) (?h1 ! d)"
        by simp
    qed
    have m: "length ?h1 - ?c < length h - pos" using c_pos c_less by simp
    have c1: "?c < length ?h1" using c_less by simp
    from less.hyps[OF m run c1 a2 a3]
    have r: "length h' = length ?h1 \<and> pos' < length ?h1 \<and> \<not> 2 * pos' + 1 < length ?h1
         \<and> set h' \<subseteq> set ?h1
         \<and> (\<forall>i. 0 < i \<and> i < length ?h1 \<and> i \<noteq> pos' \<and> (i - 1) div 2 \<noteq> pos'
                \<longrightarrow> msg_le (h' ! ((i - 1) div 2)) (h' ! i))" .
    have "set ?h1 \<subseteq> set h"
      using set_update_subset_insert[of h pos "h ! ?c"] c_less by auto
    with r show ?thesis by auto
  qed
qed

text \<open>\<^verbatim>\<open>heappop\<close> on a non-empty heap returns its first item and leaves a heap.\<close>

lemma heappop_heap:
  assumes "is_heap heap" "heap \<noteq> []"
  shows "\<exists>q. heappop heap = Inr (heap ! 0, q) \<and> is_heap q
             \<and> Suc (length q) = length heap \<and> set q \<subseteq> set heap"
proof (cases "butlast heap = []")
  case True
  with assms(2) have "length heap = 1"
    by (cases heap) (auto split: if_splits)
  then obtain x where "heap = [x]" by (cases heap) auto
  then show ?thesis by (simp add: heappop_def is_heap_def)
next
  case False
  let ?rest = "butlast heap"
  let ?x = "last heap"
  let ?h0 = "?rest[0 := ?x]"
  have len_rest: "Suc (length ?rest) = length heap" using assms(2) by simp
  have rest_pos: "0 < length ?rest" using False by (cases "butlast heap") simp_all
  have rest_nth: "?rest ! i = heap ! i" if "i < length ?rest" for i
    using that by (simp add: nth_butlast)
  have x_in: "?x \<in> set heap" using assms(2) by simp
  have rest_sub: "set ?rest \<subseteq> set heap" by (auto dest: in_set_butlastD)
  obtain h' pos' where loop: "siftup_loop ?h0 0 = (h', pos')"
    by (cases "siftup_loop ?h0 0")
  have e0: "\<forall>i. 0 < i \<and> i < length ?h0 \<and> i \<noteq> 0 \<and> (i - 1) div 2 \<noteq> 0
              \<longrightarrow> msg_le (?h0 ! ((i - 1) div 2)) (?h0 ! i)"
  proof (intro allI impI)
    fix i assume i: "0 < i \<and> i < length ?h0 \<and> i \<noteq> 0 \<and> (i - 1) div 2 \<noteq> 0"
    then have il: "i < length ?rest" by simp
    have pl: "(i - 1) div 2 < length ?rest" using il i parent_less[of i] by linarith
    have "msg_le (heap ! ((i - 1) div 2)) (heap ! i)"
      using assms(1) i il len_rest by (simp add: is_heap_def)
    with i il pl show "msg_le (?h0 ! ((i - 1) div 2)) (?h0 ! i)" by (simp add: rest_nth)
  qed
  from siftup_loop_inv[OF loop _ e0] rest_pos
  have inv: "length h' = length ?h0" "pos' < length ?h0" "\<not> 2 * pos' + 1 < length ?h0"
    "set h' \<subseteq> set ?h0"
    "\<forall>i. 0 < i \<and> i < length ?h0 \<and> i \<noteq> pos' \<and> (i - 1) div 2 \<noteq> pos'
                \<longrightarrow> msg_le (h' ! ((i - 1) div 2)) (h' ! i)"
    by simp_all
  let ?h2 = "h'[pos' := ?x]"
  have leaf: "\<not> (0 < c \<and> c < length ?h2 \<and> (c - 1) div 2 = pos')" for c
    using inv(1,3) child_cases[of c pos'] by auto
  have heap2: "is_heap (siftdown_loop ?h2 0 pos' ?x)"
  proof (rule is_heap_siftdown_loop)
    show "pos' < length ?h2" using inv(1,2) by simp
    show "\<forall>i. 0 < i \<and> i < length ?h2 \<and> i \<noteq> pos' \<and> (i - 1) div 2 \<noteq> pos'
            \<longrightarrow> msg_le (?h2 ! ((i - 1) div 2)) (?h2 ! i)"
      using inv(1,5) by simp
    show "\<forall>c. 0 < c \<and> c < length ?h2 \<and> (c - 1) div 2 = pos' \<longrightarrow> msg_le ?x (?h2 ! c)"
      using leaf by blast
    show "\<forall>c. 0 < c \<and> c < length ?h2 \<and> (c - 1) div 2 = pos' \<and> 0 < pos'
            \<longrightarrow> msg_le (?h2 ! ((pos' - 1) div 2)) (?h2 ! c)"
      using leaf by blast
  qed
  have h0_0: "?h0 ! 0 = ?x" using rest_pos by simp
  have h2_pos: "?h2 ! pos' = ?x" using inv(1,2) by simp
  have up: "siftup ?h0 0 = siftdown_loop ?h2 0 pos' ?x"
    by (simp add: siftup_def loop h0_0 siftdown_def h2_pos Let_def)
  have "set ?h2 \<subseteq> insert ?x (set h')" by (rule set_update_subset_insert)
  also have "\<dots> \<subseteq> insert ?x (set ?h0)" using inv(4) by auto
  also have "\<dots> \<subseteq> insert ?x (insert ?x (set ?rest))"
    using set_update_subset_insert[of ?rest 0 ?x] by auto
  also have "\<dots> \<subseteq> set heap" using x_in rest_sub by auto
  finally have s2: "set ?h2 \<subseteq> set heap" .
  have "set (siftdown_loop ?h2 0 pos' ?x) \<subseteq> insert ?x (set ?h2)"
    using inv(1,2) by (intro set_siftdown_loop) simp
  with s2 x_in have sub: "set (siftdown_loop ?h2 0 pos' ?x) \<subseteq> set heap" by auto
  have len: "Suc (length (siftdown_loop ?h2 0 pos' ?x)) = length heap"
    using inv(1) len_rest by simp
  have pop: "heappop heap = Inr (?rest ! 0, siftup ?h0 0)"
    using assms(2) False by (simp add: heappop_def Let_def)
  show ?thesis
    using pop up heap2 sub len rest_nth[OF rest_pos] by simp
qed

lemma is_heap_Nil: "is_heap []" by (simp add: is_heap_def)

lemma foldl_heappush:
  "is_heap h \<Longrightarrow> is_heap (foldl heappush h xs)
     \<and> length (foldl heappush h xs) = length h + length xs
     \<and> set (foldl heappush h xs) \<subseteq> set h \<union> set xs"
proof (induction xs arbitrary: h)
  case Nil
  then show ?case by simp
next
  case (Cons x xs)
  from Cons.IH[OF is_heap_heappush[OF Cons.prems, of x]] set_heappush[of h x]
  show ?case by auto
qed

section \<open>Every reachable state satisfies the invariant\<close>

lemma shrinks_refl: "shrinks st st"
  by (simp add: shrinks_def)

lemma shrinks_trans:
  assumes "shrinks a b" "shrinks b c"
  shows "shrinks a c"
proof -
  have "is_heap (priority_queues c q)
        \<and> set (priority_queues c q) \<subseteq> set (priority_queues a q)
        \<and> length (priority_queues c q) \<le> length (priority_queues a q)"
    if h: "is_heap (priority_queues a q)" for q
  proof -
    from assms(1) h have b: "is_heap (priority_queues b q)"
      "set (priority_queues b q) \<subseteq> set (priority_queues a q)"
      "length (priority_queues b q) \<le> length (priority_queues a q)"
      by (simp_all add: shrinks_def)
    from assms(2) b(1) have "is_heap (priority_queues c q)"
      "set (priority_queues c q) \<subseteq> set (priority_queues b q)"
      "length (priority_queues c q) \<le> length (priority_queues b q)"
      by (simp_all add: shrinks_def)
    with b show ?thesis by auto
  qed
  moreover have "max_queue_size c = max_queue_size a"
    using assms by (simp add: shrinks_def)
  ultimately show ?thesis by (simp add: shrinks_def)
qed

lemma shrinks_inv:
  assumes "sched_inv st" "shrinks st st'"
  shows "sched_inv st'"
proof -
  have q: "is_heap (priority_queues st' q)
        \<and> set (priority_queues st' q) \<subseteq> set (priority_queues st q)
        \<and> length (priority_queues st' q) \<le> length (priority_queues st q)" for q
    using assms by (simp add: shrinks_def sched_inv_def queue_ok_def)
  have "queue_ok p (priority_queues st' p)" for p
    using q[of p] assms(1) by (auto simp: sched_inv_def queue_ok_def)
  moreover have "int (length (priority_queues st' MEDIUM)) \<le> max_queue_size st'"
    using q[of MEDIUM] assms by (simp add: sched_inv_def shrinks_def)
  moreover have "int (length (priority_queues st' LOW)) \<le> max_queue_size st'"
    using q[of LOW] assms by (simp add: sched_inv_def shrinks_def)
  ultimately show ?thesis by (simp add: sched_inv_def)
qed

lemma active_pop_simps [simp]:
  "priority_queues (active_pop st i) = priority_queues st"
  "max_queue_size (active_pop st i) = max_queue_size st"
  by (simp_all add: active_pop_def)

lemma set_queue_simps [simp]:
  "priority_queues (set_queue st p q) = (priority_queues st)(p := q)"
  "max_queue_size (set_queue st p q) = max_queue_size st"
  "active_messages (set_queue st p q) = active_messages st"
  by (simp_all add: set_queue_def)

lemma write_through_simps [simp]:
  "priority_queues (write_through st m) = priority_queues st"
  "max_queue_size (write_through st m) = max_queue_size st"
  by (simp_all add: write_through_def)

lemma fold_active_pop_simps [simp]:
  "priority_queues (fold (\<lambda>msg s. active_pop s (message_id msg)) xs st) = priority_queues st"
  "max_queue_size (fold (\<lambda>msg s. active_pop s (message_id msg)) xs st) = max_queue_size st"
  by (induction xs arbitrary: st) simp_all

lemma shrinks_active_pop: "shrinks st (active_pop st i)"
  by (simp add: shrinks_def)

lemma shrinksI:
  assumes "max_queue_size st' = max_queue_size st"
    and "\<And>q. q \<noteq> p \<Longrightarrow> priority_queues st' q = priority_queues st q"
    and "is_heap (priority_queues st p) \<Longrightarrow>
           is_heap (priority_queues st' p)
           \<and> set (priority_queues st' p) \<subseteq> set (priority_queues st p)
           \<and> length (priority_queues st' p) \<le> length (priority_queues st p)"
  shows "shrinks st st'"
  unfolding shrinks_def using assms by (metis order_refl)

lemma cleanup_unchanged:
  "filter (\<lambda>msg. is_expired msg now) (priority_queues st p) = [] \<Longrightarrow>
   cleanup_expired_messages st now p = (0, st)"
  by (simp add: cleanup_expired_messages_def Let_def)

lemma cleanup_shorter:
  assumes "filter (\<lambda>msg. is_expired msg now) (priority_queues st p) \<noteq> []"
  shows "length (priority_queues (snd (cleanup_expired_messages st now p)) p)
           < length (priority_queues st p)"
proof -
  let ?q = "priority_queues st p"
  let ?valid = "filter (\<lambda>msg. \<not> is_expired msg now) ?q"
  have l: "length (foldl heappush [] ?valid) = length ?valid"
    using foldl_heappush[OF is_heap_Nil, of ?valid] by simp
  have "length ?valid + length (filter (\<lambda>msg. is_expired msg now) ?q) = length ?q"
    using sum_length_filter_compl[of "\<lambda>msg. is_expired msg now" ?q] by simp
  moreover have "0 < length (filter (\<lambda>msg. is_expired msg now) ?q)"
    using assms by simp
  ultimately have "length ?valid < length ?q" by linarith
  with l assms show ?thesis
    by (simp add: cleanup_expired_messages_def Let_def)
qed

lemma cleanup_shrinks: "shrinks st (snd (cleanup_expired_messages st now p))"
proof (cases "filter (\<lambda>msg. is_expired msg now) (priority_queues st p) = []")
  case True
  then show ?thesis by (simp add: cleanup_unchanged shrinks_refl)
next
  case False
  let ?q = "priority_queues st p"
  let ?valid = "filter (\<lambda>msg. \<not> is_expired msg now) ?q"
  have fh: "is_heap (foldl heappush [] ?valid)"
    "length (foldl heappush [] ?valid) = length ?valid"
    "set (foldl heappush [] ?valid) \<subseteq> set ?valid"
    using foldl_heappush[OF is_heap_Nil, of ?valid] by simp_all
  show ?thesis
  proof (rule shrinksI[where p = p])
    show "max_queue_size (snd (cleanup_expired_messages st now p)) = max_queue_size st"
      by (simp add: cleanup_expired_messages_def Let_def)
    show "priority_queues (snd (cleanup_expired_messages st now p)) q = priority_queues st q"
      if "q \<noteq> p" for q
      using that by (simp add: cleanup_expired_messages_def Let_def)
    have "is_heap (priority_queues (snd (cleanup_expired_messages st now p)) p)"
      using fh(1) False by (simp add: cleanup_expired_messages_def Let_def)
    moreover have "set (priority_queues (snd (cleanup_expired_messages st now p)) p) \<subseteq> set ?q"
      using fh(3) False by (auto simp: cleanup_expired_messages_def Let_def)
    moreover have "length (priority_queues (snd (cleanup_expired_messages st now p)) p) \<le> length ?q"
      using cleanup_shorter[OF False] by simp
    ultimately show "is_heap (priority_queues (snd (cleanup_expired_messages st now p)) p)
           \<and> set (priority_queues (snd (cleanup_expired_messages st now p)) p) \<subseteq> set ?q
           \<and> length (priority_queues (snd (cleanup_expired_messages st now p)) p) \<le> length ?q"
      by simp
  qed
qed

lemma heappop_shrinks:
  assumes "heappop (priority_queues st p) = Inr (m, q')"
  shows "shrinks st (set_queue st p q')"
proof (rule shrinksI[where p = p])
  let ?q = "priority_queues st p"
  from assms have ne: "?q \<noteq> []" by (auto simp: heappop_def)
  show "is_heap (priority_queues (set_queue st p q') p)
         \<and> set (priority_queues (set_queue st p q') p) \<subseteq> set ?q
         \<and> length (priority_queues (set_queue st p q') p) \<le> length ?q"
    if "is_heap ?q"
    using heappop_heap[OF that ne] assms by auto
qed simp_all

lemma make_room_loop_shrinks: "shrinks st (snd (make_room_loop st now p ps))"
proof (induction ps)
  case Nil
  show ?case by (simp add: shrinks_refl)
next
  case (Cons lp ps)
  show ?case
  proof (cases "\<not> priority_value p \<le> priority_value lp \<and> priority_queues st lp \<noteq> []")
    case False
    with Cons show ?thesis by auto
  next
    case True
    show ?thesis
    proof (cases "heappop (priority_queues st lp)")
      case (Inl e)
      with True show ?thesis by (simp add: shrinks_refl)
    next
      case (Inr r)
      obtain m q' where r: "r = (m, q')" by (cases r)
      from heappop_shrinks[of st lp m q'] Inr r
      have "shrinks st (set_queue st lp q')" by simp
      from shrinks_trans[OF this shrinks_active_pop[of "set_queue st lp q'" "message_id m"]]
      show ?thesis using True Inr r by simp
    qed
  qed
qed

lemma make_room_shrinks: "shrinks st (snd (make_room_for_priority st now p))"
  unfolding make_room_for_priority_def by (rule make_room_loop_shrinks)

lemma process_single_message_queues:
  "priority_queues (snd (snd (process_single_message st now e m f))) = priority_queues st"
  "max_queue_size (snd (snd (process_single_message st now e m f))) = max_queue_size st"
  by (auto simp: process_single_message_def Let_def split: option.splits processor_outcome.splits)

lemma process_next_shrinks:
  "shrinks st (snd (snd (process_next_message st now e p f)))"
proof (cases "priority_queues st p = []")
  case True
  then show ?thesis by (simp add: process_next_message_def shrinks_refl)
next
  case False
  show ?thesis
  proof (cases "heappop (priority_queues st p)")
    case (Inl x)
    with False show ?thesis by (simp add: process_next_message_def shrinks_refl)
  next
    case (Inr r)
    obtain m q' where r: "r = (m, q')" by (cases r)
    let ?st1 = "set_queue st p q'"
    have s: "shrinks st ?st1" using heappop_shrinks[of st p m q'] Inr r by simp
    obtain ok m' st2 where ps: "process_single_message ?st1 now e m f = (ok, m', st2)"
      by (cases "process_single_message ?st1 now e m f")
    from process_single_message_queues[of ?st1 now e m f] ps
    have "priority_queues st2 = priority_queues ?st1" "max_queue_size st2 = max_queue_size ?st1"
      by simp_all
    then have "shrinks ?st1 (st2\<lparr>consecutive_errors := c\<rparr>)" for c
      by (simp add: shrinks_def)
    from shrinks_trans[OF s this] show ?thesis
      using False Inr r ps by (simp add: process_next_message_def)
  qed
qed


lemma enqueue_inv:
  assumes "sched_inv st"
    and "priority m = MEDIUM \<or> priority m = LOW \<Longrightarrow>
           int (length (priority_queues st (priority m))) < max_queue_size st"
  shows "sched_inv (snd (snd (enqueue st now m)))"
proof -
  let ?p = "priority m"
  let ?m1 = "m\<lparr>queue_time := Some now\<rparr>"
  let ?q = "heappush (priority_queues st ?p) ?m1"
  let ?st' = "snd (snd (enqueue st now m))"
  have qs: "priority_queues ?st' = (priority_queues st)(?p := ?q)"
    and mx: "max_queue_size ?st' = max_queue_size st"
    by (simp_all add: enqueue_def Let_def)
  have ok: "queue_ok p (priority_queues st p)" for p
    using assms(1) by (simp add: sched_inv_def)
  have "queue_ok ?p ?q"
    using ok[of ?p] is_heap_heappush[of "priority_queues st ?p" ?m1]
      set_heappush[of "priority_queues st ?p" ?m1]
    by (auto simp: queue_ok_def)
  then have a: "queue_ok p (priority_queues ?st' p)" for p
    using ok[of p] by (simp add: qs)
  have b: "int (length (priority_queues ?st' p)) \<le> max_queue_size ?st'"
    if "p = MEDIUM \<or> p = LOW" for p
  proof (cases "p = ?p")
    case True
    with that assms(2) show ?thesis by (auto simp: qs mx)
  next
    case False
    with that assms(1) show ?thesis by (auto simp: qs mx sched_inv_def)
  qed
  from a b[of MEDIUM] b[of LOW] show ?thesis by (simp add: sched_inv_def)
qed


lemma add_message_internal_inv:
  assumes "sched_inv st"
  shows "sched_inv (snd (snd (add_message_internal st now m)))"
proof -
  let ?p = "priority m"
  obtain n st1 where cl: "cleanup_expired_messages st now ?p = (n, st1)"
    by (cases "cleanup_expired_messages st now ?p")
  have i1: "sched_inv st1"
    using shrinks_inv[OF assms cleanup_shrinks[of st now ?p]] cl by simp
  obtain d st2 where mr: "make_room_for_priority st1 now ?p = (d, st2)"
    by (cases "make_room_for_priority st1 now ?p")
  have i2: "sched_inv st2"
    using shrinks_inv[OF i1 make_room_shrinks[of st1 now ?p]] mr by simp
  show ?thesis
    using assms i1 i2 cl mr
    by (auto simp: add_message_internal_def Let_def intro!: enqueue_inv)
qed

lemma add_message_inv:
  assumes "sched_inv st"
  shows "sched_inv (snd (snd (add_message st now m)))"
  using assms add_message_internal_inv[OF assms, of now m]
  by (auto simp: add_message_def split: prod.splits)

lemma new_scheduler_inv: "0 < n \<Longrightarrow> sched_inv (new_scheduler n)"
  by (simp add: sched_inv_def new_scheduler_def queue_ok_def is_heap_def)

lemma reachable_inv: "reachable st \<Longrightarrow> sched_inv st"
proof (induction rule: reachable.induct)
  case (start queue_size)
  then show ?case by (rule new_scheduler_inv)
next
  case (admit st now m)
  then show ?case by (simp add: add_message_inv)
next
  case (dispatch st now end_time p processor)
  then show ?case using shrinks_inv[OF _ process_next_shrinks] by blast
next
  case (sweep st now p)
  then show ?case using shrinks_inv[OF _ cleanup_shrinks] by blast
next
  case (housekeeping st index flag errors history)
  then show ?case by (simp add: sched_inv_def)
qed



section \<open>Order of dispatch (C3)\<close>

lemma process_single_message_frame:
  "message_id (fst (snd (process_single_message st now e m f))) = message_id m"
  "priority (fst (snd (process_single_message st now e m f))) = priority m"
  "creation_timestamp (fst (snd (process_single_message st now e m f))) = creation_timestamp m"
  by (auto simp: process_single_message_def update_status_def Let_def
      split: option.splits processor_outcome.splits)

lemma reachable_two_classes: "reachable sched_two_classes"
  unfolding sched_two_classes_def admitted_def
  by (intro reachable.admit reachable.start) simp

text \<open>
  C3, as stated, fails: each class has its own dispatch loop, which takes from the queue
  of its class only. With one CRITICAL and one LOW message queued, the step of the LOW
  loop dispatches the LOW message while the CRITICAL queue is non-empty.
\<close>

theorem C3_low_before_critical_counterexample:
  "map message_id (priority_queues sched_two_classes CRITICAL) = [''c1'']
   \<and> map_option message_id (fst (snd (process_next_message sched_two_classes 2 3 LOW None)))
       = Some ''l1''
   \<and> map_option priority (fst (snd (process_next_message sched_two_classes 2 3 LOW None)))
       = Some LOW
   \<and> priority_value LOW < priority_value CRITICAL"
  by code_simp

text \<open>
  C3, amended: in every reachable state, a step of the dispatch loop of a class whose
  queue is non-empty takes a message of that queue; the message has the priority of the
  class and the earliest creation timestamp among the messages of that queue. Nothing is
  promised across classes.
\<close>

theorem C3_pop_is_first_of_its_class:
  assumes "reachable st" and "priority_queues st p \<noteq> []"
  shows "\<exists>m' st'. process_next_message st now end_time p processor = (True, Some m', st')
           \<and> priority m' = p
           \<and> message_id m' \<in> message_id ` set (priority_queues st p)
           \<and> (\<forall>x \<in> set (priority_queues st p).
                 creation_timestamp m' \<le> creation_timestamp x)"
proof -
  let ?q = "priority_queues st p"
  have ok: "queue_ok p ?q"
    using reachable_inv[OF assms(1)] by (simp add: sched_inv_def)
  then have heap: "is_heap ?q" and prio: "\<And>x. x \<in> set ?q \<Longrightarrow> priority x = p"
    by (simp_all add: queue_ok_def)
  from heappop_heap[OF heap assms(2)] obtain q' where pop: "heappop ?q = Inr (?q ! 0, q')"
    by blast
  let ?m = "?q ! 0"
  have m_in: "?m \<in> set ?q" using assms(2) by simp
  obtain ok' m' st1 where
    ps: "process_single_message (set_queue st p q') now end_time ?m processor = (ok', m', st1)"
    by (cases "process_single_message (set_queue st p q') now end_time ?m processor")
  from process_single_message_frame[of "set_queue st p q'" now end_time ?m processor] ps
  have frame: "message_id m' = message_id ?m" "priority m' = priority ?m"
    "creation_timestamp m' = creation_timestamp ?m"
    by simp_all
  have first: "creation_timestamp ?m \<le> creation_timestamp x" if x: "x \<in> set ?q" for x
  proof -
    from x obtain i where i: "i < length ?q" "x = ?q ! i" by (auto simp: in_set_conv_nth)
    from is_heap_root_min[OF heap i(1)] i(2) have "msg_le ?m x" by simp
    moreover have "priority ?m = priority x" using prio[OF m_in] prio[OF x] by simp
    ultimately show ?thesis by (simp add: msg_le_def lt_def)
  qed
  have "process_next_message st now end_time p processor
          = (True, Some m',
             st1\<lparr>consecutive_errors :=
                   (consecutive_errors st1)
                     (p := (if ok' then 0 else consecutive_errors st1 p + 1))\<rparr>)"
    using assms(2) pop ps by (simp add: process_next_message_def)
  moreover have "priority m' = p" using frame(2) prio[OF m_in] by simp
  moreover have "message_id m' \<in> message_id ` set ?q" using frame(1) m_in by auto
  moreover have "\<forall>x \<in> set ?q. creation_timestamp m' \<le> creation_timestamp x"
    using first frame(3) by simp
  ultimately show ?thesis by blast
qed

theorem C3_pop_is_first_of_its_class_witness:
  "reachable sched_two_classes
   \<and> priority_queues sched_two_classes LOW \<noteq> []
   \<and> (\<exists>m' st'. process_next_message sched_two_classes 2 3 LOW None = (True, Some m', st')
         \<and> priority m' = LOW)"
proof -
  have ne: "priority_queues sched_two_classes LOW \<noteq> []"
    by code_simp
  from C3_pop_is_first_of_its_class[OF reachable_two_classes ne, of 2 3 None]
  show ?thesis
    using reachable_two_classes ne by blast
qed

section \<open>Rejected admissions (C8)\<close>



end
